theory Spec2Isabelle
  imports Main "HOL-Library.Word" "HOL-Library.Sublist"
begin

section \<open>Strings of UTF-16 code units\<close>

text \<open>
  A JavaScript string is a finite sequence of 16-bit code units; \<open>length\<close>, indexing,
  \<open>slice\<close>, \<open>startsWith\<close> and \<open>indexOf\<close> all count code units.  Literals of the source
  are written \<open>js ''...''\<close>.
\<close>

type_synonym cu = "16 word"
type_synonym jsstring = "cu list"

definition js :: "string \<Rightarrow> jsstring" where
  "js s = map of_char s"

abbreviation TAB :: cu where "TAB \<equiv> 0x09"
abbreviation LF :: cu where "LF \<equiv> 0x0A"
abbreviation CR :: cu where "CR \<equiv> 0x0D"
abbreviation SP :: cu where "SP \<equiv> 0x20"
abbreviation HASH :: cu where "HASH \<equiv> 0x23"
abbreviation RPAR :: cu where "RPAR \<equiv> 0x29"
abbreviation STAR :: cu where "STAR \<equiv> 0x2A"
abbreviation PLUS :: cu where "PLUS \<equiv> 0x2B"
abbreviation MINUS :: cu where "MINUS \<equiv> 0x2D"
abbreviation DOT :: cu where "DOT \<equiv> 0x2E"
abbreviation SLASH :: cu where "SLASH \<equiv> 0x2F"
abbreviation LT :: cu where "LT \<equiv> 0x3C"
abbreviation GT :: cu where "GT \<equiv> 0x3E"
abbreviation USCORE :: cu where "USCORE \<equiv> 0x5F"
abbreviation BTICK :: cu where "BTICK \<equiv> 0x60"

text \<open>\<open>src[i]\<close>: the code unit at \<open>i\<close>, or \<open>undefined\<close> (here \<open>None\<close>) out of range.\<close>

definition at :: "jsstring \<Rightarrow> nat \<Rightarrow> cu option" where
  "at src i = (if i < length src then Some (src ! i) else None)"

text \<open>\<open>src.slice(a, b)\<close> for \<open>0 \<le> a\<close>, \<open>0 \<le> b\<close>; it is empty when \<open>b \<le> a\<close>.\<close>

definition slice :: "jsstring \<Rightarrow> nat \<Rightarrow> nat \<Rightarrow> jsstring" where
  "slice src a b = take (b - a) (drop a src)"

text \<open>\<open>src.startsWith(p, i)\<close>.\<close>

definition startsWith :: "jsstring \<Rightarrow> jsstring \<Rightarrow> nat \<Rightarrow> bool" where
  "startsWith src p i = (take (length p) (drop i src) = p)"

definition endsWith :: "jsstring \<Rightarrow> jsstring \<Rightarrow> bool" where
  "endsWith s p = (length p \<le> length s \<and> drop (length s - length p) s = p)"

text \<open>
  The loops of the source that advance an index while the code unit under it satisfies a
  test: \<open>while (j < src.length && P(src[j])) j++\<close>.  Where the source omits the bound,
  \<open>src[j]\<close> is \<open>undefined\<close> past the end and fails the test.
\<close>

function scanWhile :: "(cu \<Rightarrow> bool) \<Rightarrow> jsstring \<Rightarrow> nat \<Rightarrow> nat" where
  "scanWhile P src j = (if j < length src \<and> P (src ! j) then scanWhile P src (j + 1) else j)"
  by pat_completeness auto
termination
  by (relation "measure (\<lambda>(P, src, j). length src - j)") auto

declare scanWhile.simps [simp del]

text \<open>\<open>src.indexOf(c, from)\<close>, with \<open>None\<close> for \<open>-1\<close>.\<close>

definition indexOf :: "jsstring \<Rightarrow> cu \<Rightarrow> nat \<Rightarrow> nat option" where
  "indexOf src c from =
     (let j = scanWhile (\<lambda>x. x \<noteq> c) src from in if j < length src then Some j else None)"

section \<open>Grapheme segmenter\<close>

text \<open>
  \<open>graphemes\<close> uses \<open>Intl.Segmenter\<close> when the runtime has one and iterates the string by
  code points otherwise.  The runtime's segmenter is a parameter: \<open>Some seg\<close> when
  \<open>HAS_SEGMENTER\<close> holds, \<open>seg s\<close> being the list of segments of \<open>s\<close>, and \<open>None\<close> when it
  does not.
\<close>

type_synonym segmenter = "jsstring \<Rightarrow> jsstring list"

definition isHighSurrogate :: "cu \<Rightarrow> bool" where
  "isHighSurrogate c = (0xD800 \<le> c \<and> c \<le> 0xDBFF)"

definition isLowSurrogate :: "cu \<Rightarrow> bool" where
  "isLowSurrogate c = (0xDC00 \<le> c \<and> c \<le> 0xDFFF)"

text \<open>\<open>for (const ch of str)\<close>: a surrogate pair is one element, any other unit is its own.\<close>

fun codePoints :: "jsstring \<Rightarrow> jsstring list" where
  "codePoints [] = []"
| "codePoints [c] = [[c]]"
| "codePoints (c # d # cs) =
     (if isHighSurrogate c \<and> isLowSurrogate d then [c, d] # codePoints cs
      else [c] # codePoints (d # cs))"

definition graphemes :: "segmenter option \<Rightarrow> jsstring \<Rightarrow> jsstring list" where
  "graphemes hs str = (case hs of Some seg \<Rightarrow> seg str | None \<Rightarrow> codePoints str)"

text \<open>
  What \<open>Intl.Segmenter\<close> guarantees: the segments of a string are non-empty and
  concatenate to the string.
\<close>

definition segmenter_ok :: "segmenter option \<Rightarrow> bool" where
  "segmenter_ok hs =
     (case hs of None \<Rightarrow> True
      | Some seg \<Rightarrow> \<forall>s. concat (seg s) = s \<and> [] \<notin> set (seg s))"

text \<open>The segmenter that makes every code unit a segment.\<close>

definition unitSegments :: segmenter where
  "unitSegments s = map (\<lambda>c. [c]) s"

section \<open>Whitespace runs\<close>

definition isWS :: "cu \<Rightarrow> bool" where
  "isWS c = (c = SP \<or> c = TAB \<or> c = LF \<or> c = CR)"

definition readWS :: "jsstring \<Rightarrow> nat \<Rightarrow> nat" where
  "readWS src i = scanWhile isWS src i - i"

section \<open>toClosingTag\<close>

text \<open>
  The argument is any JavaScript value; only strings are looked at.  The two tests joined
  by \<open>||\<close> are evaluated left to right, the second only when the first fails.
\<close>

datatype jsvalue = JString jsstring | JOther

text \<open>
  The code units that \<open>String.prototype.trim\<close> strips and \<open>\s\<close> matches: the white space
  and line terminator code points of ECMAScript.
\<close>

definition isSpace :: "cu \<Rightarrow> bool" where
  "isSpace c = (c \<in> {0x09, 0x0A, 0x0B, 0x0C, 0x0D, 0x20, 0xA0, 0x1680, 0x2028, 0x2029,
                      0x202F, 0x205F, 0x3000, 0xFEFF} \<or> (0x2000 \<le> c \<and> c \<le> 0x200A))"

definition trim :: "jsstring \<Rightarrow> jsstring" where
  "trim s = rev (dropWhile isSpace (rev (dropWhile isSpace s)))"

text \<open>The character class \<open>[a-zA-Z0-9:-]\<close>.\<close>

definition isTagNameChar :: "cu \<Rightarrow> bool" where
  "isTagNameChar c = ((0x61 \<le> c \<and> c \<le> 0x7A) \<or> (0x41 \<le> c \<and> c \<le> 0x5A)
                      \<or> (0x30 \<le> c \<and> c \<le> 0x39) \<or> c = 0x3A \<or> c = MINUS)"

text \<open>
  \<open>/^<\s*([a-zA-Z0-9:-]+)/.exec(s)\<close>: the first group, or \<open>None\<close> when there is no match.
  No name character is white space, so the greedy \<open>\s*\<close> never gives anything back.
\<close>

definition matchTagName :: "jsstring \<Rightarrow> jsstring option" where
  "matchTagName s =
     (case s of [] \<Rightarrow> None
      | c # rest \<Rightarrow>
          if c = LT then
            (let tag = takeWhile isTagNameChar (dropWhile isSpace rest)
             in if tag = [] then None else Some tag)
          else None)"

definition toClosingTag :: "jsvalue \<Rightarrow> jsstring" where
  "toClosingTag opening =
     (case opening of JOther \<Rightarrow> []
      | JString str \<Rightarrow>
          (let s = trim str in
           if \<not> startsWith s (js ''<'') 0 then []
           else if \<not> endsWith s (js ''>'') then []
           else if startsWith s (js ''</'') 0 then []
           else if endsWith s (js ''/>'') then []
           else (case matchTagName s of None \<Rightarrow> []
                 | Some tag \<Rightarrow> js ''</'' @ tag @ js ''>'')))"

section \<open>Line syntax at start of line\<close>

record match =
  mvalue :: jsstring
  len :: nat
  isFence :: bool

definition isDigit :: "cu \<Rightarrow> bool" where
  "isDigit c = (0x30 \<le> c \<and> c \<le> 0x39)"

text \<open>\<open>src.startsWith(hashes, i) && src[i + n] === ' '\<close> for the heading of level \<open>n\<close>.\<close>

definition heading :: "jsstring \<Rightarrow> nat \<Rightarrow> nat \<Rightarrow> bool" where
  "heading src i n = (startsWith src (replicate n HASH) i \<and> at src (i + n) = Some SP)"

definition matchLineSyntax :: "jsstring \<Rightarrow> nat \<Rightarrow> match option" where
  "matchLineSyntax src i =
    (if heading src i 6 then Some \<lparr>mvalue = js ''###### '', len = 7, isFence = False\<rparr>
     else if heading src i 5 then Some \<lparr>mvalue = js ''##### '', len = 6, isFence = False\<rparr>
     else if heading src i 4 then Some \<lparr>mvalue = js ''#### '', len = 5, isFence = False\<rparr>
     else if heading src i 3 then Some \<lparr>mvalue = js ''### '', len = 4, isFence = False\<rparr>
     else if heading src i 2 then Some \<lparr>mvalue = js ''## '', len = 3, isFence = False\<rparr>
     else if heading src i 1 then Some \<lparr>mvalue = js ''# '', len = 2, isFence = False\<rparr>
     else if at src i = Some GT \<and> at src (scanWhile (\<lambda>c. c = GT) src i) = Some SP then
       (let j = scanWhile (\<lambda>c. c = GT) src i
        in Some \<lparr>mvalue = slice src i (j + 1), len = j - i + 1, isFence = False\<rparr>)
     else if (at src i = Some MINUS \<or> at src i = Some PLUS \<or> at src i = Some STAR)
             \<and> at src (i + 1) = Some SP then
       Some \<lparr>mvalue = slice src i (i + 2), len = 2, isFence = False\<rparr>
     else if (case at src i of Some c \<Rightarrow> isDigit c | None \<Rightarrow> False)
             \<and> (at src (scanWhile isDigit src i) = Some DOT
                  \<or> at src (scanWhile isDigit src i) = Some RPAR)
             \<and> at src (scanWhile isDigit src i + 1) = Some SP then
       (let j = scanWhile isDigit src i
        in Some \<lparr>mvalue = slice src i (j + 2), len = j - i + 2, isFence = False\<rparr>)
     else if startsWith src (js ''```'') i then
       (let j = scanWhile (\<lambda>c. c \<noteq> LF) src (i + 3);
            v = slice src i j @ (if at src j = Some LF then [LF] else [])
        in Some \<lparr>mvalue = v, len = length v, isFence = True\<rparr>)
     else None)"

section \<open>The scanner\<close>

datatype category = Syntax | Display
datatype tkind = Line | Open | Close | Default | Whitespace

record token =
  type :: category
  kind :: tkind
  "value" :: jsstring

datatype Mark = STRONG | EM | UNDER | CODE

text \<open>
  The scanning state: \<open>cursor\<close> is the loop variable \<open>i\<close>, \<open>stack\<close> the inline mark stack
  (its top is its last element), \<open>inFence\<close> the fenced-code flag.
\<close>

record state =
  cursor :: nat
  stack :: "Mark list"
  inFence :: bool

record options =
  includeTrailingSpaceInLineSyntax :: "bool option"

text \<open>\<open>opts.includeTrailingSpaceInLineSyntax ?? true\<close>.\<close>

definition includeSpaceOf :: "options \<Rightarrow> bool" where
  "includeSpaceOf opts =
     (case includeTrailingSpaceInLineSyntax opts of None \<Rightarrow> True | Some b \<Rightarrow> b)"

definition defaultOptions :: options where
  "defaultOptions = \<lparr>includeTrailingSpaceInLineSyntax = None\<rparr>"

definition atLineStart :: "jsstring \<Rightarrow> nat \<Rightarrow> bool" where
  "atLineStart src pos = (pos = 0 \<or> at src (pos - 1) = Some LF)"

text \<open>\<open>stack[stack.length - 1]\<close>, \<open>undefined\<close> on the empty stack.\<close>

definition top :: "Mark list \<Rightarrow> Mark option" where
  "top stk = (if stk = [] then None else Some (last stk))"

text \<open>\<open>m.value.replace(/ $/, '')\<close>.\<close>

definition stripTrailingSpace :: "jsstring \<Rightarrow> jsstring" where
  "stripTrailingSpace v = (if v \<noteq> [] \<and> last v = SP then butlast v else v)"

datatype error = TypeError

text \<open>
  Each section of the loop body either yields a token and continues with the next state,
  or falls through to the next section (\<open>None\<close>).
\<close>

text \<open>1) Line syntax at start of line: the fence toggle, then the other markers.\<close>

definition lineSyntaxStep :: "bool \<Rightarrow> jsstring \<Rightarrow> state \<Rightarrow> (token \<times> state) option" where
  "lineSyntaxStep includeSpace src st =
     (let i = cursor st in
      if atLineStart src i then
        (case matchLineSyntax src i of
           None \<Rightarrow> None
         | Some m \<Rightarrow>
             if isFence m then
               Some (\<lparr>type = Syntax, kind = Line, value = mvalue m\<rparr>,
                     st\<lparr>cursor := i + len m, inFence := \<not> inFence st\<rparr>)
             else if \<not> inFence st then
               (let v = (if includeSpace then mvalue m else stripTrailingSpace (mvalue m))
                in Some (\<lparr>type = Syntax, kind = Line, value = v\<rparr>,
                         st\<lparr>cursor := i + length v\<rparr>))
             else None)
      else None)"

text \<open>
  2) and 4) Display: a clumped whitespace run, or else the first grapheme of the rest.
  When the segmenter gives no segment, \<open>g\<close> is \<open>undefined\<close> and \<open>g.length\<close> throws.
\<close>

definition displayStep :: "segmenter option \<Rightarrow> jsstring \<Rightarrow> state \<Rightarrow> error + (token \<times> state)" where
  "displayStep hs src st =
     (let i = cursor st in
      if (case at src i of Some ch \<Rightarrow> isWS ch | None \<Rightarrow> False) then
        (let n = readWS src i; run = slice src i (i + n)
         in Inr (\<lparr>type = Display, kind = Whitespace, value = run\<rparr>, st\<lparr>cursor := i + n\<rparr>))
      else
        (case graphemes hs (drop i src) of
           [] \<Rightarrow> Inl TypeError
         | g # _ \<Rightarrow>
             Inr (\<lparr>type = Display, kind = Default, value = g\<rparr>, st\<lparr>cursor := i + length g\<rparr>)))"

text \<open>2.5) HTML tags, outside inline code.\<close>

definition htmlStep :: "jsstring \<Rightarrow> state \<Rightarrow> (token \<times> state) option" where
  "htmlStep src st =
     (let i = cursor st in
      if top (stack st) \<noteq> Some CODE \<and> at src i = Some LT then
        (case indexOf src GT (i + 1) of
           None \<Rightarrow> None
         | Some closeIdx \<Rightarrow>
             (let tagText = slice src i (closeIdx + 1);
                  isClose = startsWith tagText (js ''</'') 0
              in Some (\<lparr>type = Syntax, kind = (if isClose then Close else Open), value = tagText\<rparr>,
                       st\<lparr>cursor := closeIdx + 1\<rparr>)))
      else None)"

text \<open>The toggle of one inline mark: pop and close when it is on top, else push and open.\<close>

definition toggle :: "Mark \<Rightarrow> jsstring \<Rightarrow> state \<Rightarrow> token \<times> state" where
  "toggle mk v st =
     (if top (stack st) = Some mk then
        (\<lparr>type = Syntax, kind = Close, value = v\<rparr>,
         st\<lparr>stack := butlast (stack st), cursor := cursor st + length v\<rparr>)
      else
        (\<lparr>type = Syntax, kind = Open, value = v\<rparr>,
         st\<lparr>stack := stack st @ [mk], cursor := cursor st + length v\<rparr>))"

text \<open>3) Inline marks; inside inline code only the backtick is honoured.\<close>

definition markStep :: "jsstring \<Rightarrow> state \<Rightarrow> (token \<times> state) option" where
  "markStep src st =
     (let i = cursor st; ch = at src i; next = at src (i + 1) in
      if top (stack st) \<noteq> Some CODE then
        (if ch = Some STAR \<and> next = Some STAR then Some (toggle STRONG (js ''**'') st)
         else if ch = Some STAR \<and> next \<noteq> Some STAR then Some (toggle EM (js ''*'') st)
         else if ch = Some USCORE then Some (toggle UNDER (js ''_'') st)
         else if ch = Some BTICK then Some (toggle CODE (js ''`'') st)
         else None)
      else
        (if ch = Some BTICK then
           Some (\<lparr>type = Syntax, kind = Close, value = js ''`''\<rparr>,
                 st\<lparr>stack := butlast (stack st), cursor := i + 1\<rparr>)
         else None))"

text \<open>One iteration of the loop body.\<close>

definition step :: "segmenter option \<Rightarrow> bool \<Rightarrow> jsstring \<Rightarrow> state \<Rightarrow> error + (token \<times> state)" where
  "step hs includeSpace src st =
     (case lineSyntaxStep includeSpace src st of
        Some r \<Rightarrow> Inr r
      | None \<Rightarrow>
          if inFence st then displayStep hs src st
          else (case htmlStep src st of
                  Some r \<Rightarrow> Inr r
                | None \<Rightarrow>
                    (case markStep src st of
                       Some r \<Rightarrow> Inr r
                     | None \<Rightarrow> displayStep hs src st)))"

text \<open>
  The loop \<open>while (i < src.length)\<close>.  It records every iteration: the state before, the
  token yielded, the state after.  A loop that never ends has the value \<open>None\<close>.
\<close>

type_synonym iteration = "state \<times> token \<times> state"

partial_function (option) scanLoop ::
  "segmenter option \<Rightarrow> bool \<Rightarrow> jsstring \<Rightarrow> state \<Rightarrow> iteration list
     \<Rightarrow> (error + iteration list) option" where
  "scanLoop hs includeSpace src st acc =
     (if cursor st < length src then
        (case step hs includeSpace src st of
           Inl e \<Rightarrow> Some (Inl e)
         | Inr (tok, st') \<Rightarrow> scanLoop hs includeSpace src st' (acc @ [(st, tok, st')]))
      else Some (Inr acc))"

declare scanLoop.simps [code]

definition initialState :: state where
  "initialState = \<lparr>cursor = 0, stack = [], inFence = False\<rparr>"

definition scanTrace ::
  "segmenter option \<Rightarrow> options \<Rightarrow> jsstring \<Rightarrow> (error + iteration list) option" where
  "scanTrace hs opts src = scanLoop hs (includeSpaceOf opts) src initialState []"

text \<open>The tokens the generator yields, in order.\<close>

definition createUnifiedStreamSync ::
  "segmenter option \<Rightarrow> options \<Rightarrow> jsstring \<Rightarrow> (error + token list) option" where
  "createUnifiedStreamSync hs opts src =
     (case scanTrace hs opts src of
        None \<Rightarrow> None
      | Some (Inl e) \<Rightarrow> Some (Inl e)
      | Some (Inr tr) \<Rightarrow> Some (Inr (map (\<lambda>(st, tok, st'). tok) tr)))"

text \<open>The exported generator passes every token of the former through.\<close>

definition createUnifiedStream ::
  "segmenter option \<Rightarrow> options \<Rightarrow> jsstring \<Rightarrow> (error + token list) option" where
  "createUnifiedStream hs opts src = createUnifiedStreamSync hs opts src"

section \<open>Predicates of the statements and proofs\<close>

text \<open>The code units a line marker other than a fence can start with.\<close>

definition lineLead :: "cu \<Rightarrow> bool" where
  "lineLead c = (c = HASH \<or> c = GT \<or> c = MINUS \<or> c = PLUS \<or> c = STAR \<or> isDigit c)"

text \<open>
  What every result of \<open>matchLineSyntax\<close> satisfies: the value is the \<open>len\<close> code units of
  the source at \<open>i\<close>; a fence value starts with three backticks, any other marker has at
  least two units and ends with the space.
\<close>

definition match_ok :: "jsstring \<Rightarrow> nat \<Rightarrow> match \<Rightarrow> bool" where
  "match_ok src i m =
     (mvalue m = take (len m) (drop i src) \<and> i + len m \<le> length src \<and>
      (if isFence m then 3 \<le> len m \<and> take 3 (mvalue m) = js ''```''
       else 2 \<le> len m \<and> last (mvalue m) = SP \<and> lineLead (hd (mvalue m))))"

text \<open>
  What every iteration satisfies: the token is not empty, it is the text of the source
  under the cursor, and the cursor moves past it.
\<close>

definition step_ok :: "jsstring \<Rightarrow> state \<Rightarrow> token \<Rightarrow> state \<Rightarrow> bool" where
  "step_ok src st tok st' =
     (value tok \<noteq> [] \<and> cursor st' = cursor st + length (value tok) \<and>
      cursor st' \<le> length src \<and>
      value tok = take (length (value tok)) (drop (cursor st) src))"

text \<open>
  \<open>chain hs inc src st tr fin\<close>: the iterations \<open>tr\<close> are consecutive iterations of the loop
  from the state \<open>st\<close> to the state \<open>fin\<close>.
\<close>

fun chain :: "segmenter option \<Rightarrow> bool \<Rightarrow> jsstring \<Rightarrow> state \<Rightarrow> iteration list \<Rightarrow> state \<Rightarrow> bool" where
  "chain hs inc src st [] fin = (fin = st)"
| "chain hs inc src st ((a, tok, b) # rest) fin =
     (a = st \<and> cursor st < length src \<and> step hs inc src st = Inr (tok, b)
      \<and> chain hs inc src b rest fin)"

text \<open>The tokens of a list of iterations.\<close>

definition tokensOf :: "iteration list \<Rightarrow> token list" where
  "tokensOf tr = map (\<lambda>(st, tok, st'). tok) tr"

text \<open>
  A fence-delimiter token: a \<open>line\<close> syntax token whose value starts with three backticks.
\<close>

definition fenceToken :: "token \<Rightarrow> bool" where
  "fenceToken tok = (type tok = Syntax \<and> kind tok = Line \<and> startsWith (value tok) (js ''```'') 0)"

text \<open>
  \<open>fenceRegions f toks\<close>: reading \<open>toks\<close> from left to right with the fence flag \<open>f\<close>, which
  every fence-delimiter token flips, every other token read while the flag is set is a
  display token.
\<close>

fun fenceRegions :: "bool \<Rightarrow> token list \<Rightarrow> bool" where
  "fenceRegions f [] = True"
| "fenceRegions f (t # ts) =
     (if fenceToken t then fenceRegions (\<not> f) ts
      else (f \<longrightarrow> type t = Display) \<and> fenceRegions f ts)"

text \<open>No two neighbours in a token sequence are both whitespace tokens.\<close>

fun noAdjacentWhitespace :: "token list \<Rightarrow> bool" where
  "noAdjacentWhitespace (t # u # ts) =
     (\<not> (kind t = Whitespace \<and> kind u = Whitespace) \<and> noAdjacentWhitespace (u # ts))"
| "noAdjacentWhitespace ts = True"

section \<open>Properties of the index loops\<close>

lemma scanWhile_takeWhile: "scanWhile P src j = j + length (takeWhile P (drop j src))"
proof (induction P src j rule: scanWhile.induct)
  case (1 P src j)
  show ?case
  proof (cases "j < length src \<and> P (src ! j)")
    case True
    then have d: "drop j src = src ! j # drop (j + 1) src"
      by (simp add: Cons_nth_drop_Suc)
    have "scanWhile P src j = scanWhile P src (j + 1)"
      using True by (subst scanWhile.simps) simp
    also have "\<dots> = (j + 1) + length (takeWhile P (drop (j + 1) src))"
      using 1 True by simp
    finally show ?thesis using True d by simp
  next
    case False
    have "scanWhile P src j = j" by (subst scanWhile.simps) (simp only: False if_False)
    moreover have "takeWhile P (drop j src) = []"
    proof (cases "j < length src")
      case True
      then have "drop j src = src ! j # drop (j + 1) src" by (simp add: Cons_nth_drop_Suc)
      then show ?thesis using False True by simp
    next
      case False then show ?thesis by simp
    qed
    ultimately show ?thesis by simp
  qed
qed

lemma scanWhile_ge: "j \<le> scanWhile P src j"
  by (simp add: scanWhile_takeWhile)

lemma scanWhile_le: "j \<le> length src \<Longrightarrow> scanWhile P src j \<le> length src"
proof -
  assume a: "j \<le> length src"
  have "length (takeWhile P (drop j src)) \<le> length (drop j src)" by (rule length_takeWhile_le)
  then show ?thesis using a by (simp add: scanWhile_takeWhile)
qed

lemma scanWhile_stop: "at src (scanWhile P src j) = Some c \<Longrightarrow> \<not> P c"
proof -
  assume a: "at src (scanWhile P src j) = Some c"
  let ?xs = "drop j src"
  let ?n = "length (takeWhile P ?xs)"
  from a have lt: "j + ?n < length src" and c: "src ! (j + ?n) = c"
    by (auto simp: at_def scanWhile_takeWhile split: if_splits)
  from lt have "?n < length ?xs" by simp
  then have "\<not> P (?xs ! ?n)" by (rule nth_length_takeWhile)
  moreover have "?xs ! ?n = src ! (j + ?n)" using lt by simp
  ultimately show ?thesis using c by simp
qed

section \<open>Properties of the line-syntax matcher\<close>

lemma at_Some_iff: "at src i = Some c \<longleftrightarrow> i < length src \<and> src ! i = c"
  by (auto simp: at_def)

lemma take_Suc_drop_at:
  "at src (i + n) = Some c \<Longrightarrow> take (Suc n) (drop i src) = take n (drop i src) @ [c]"
proof -
  assume "at src (i + n) = Some c"
  then have l: "i + n < length src" and c: "src ! (i + n) = c" by (simp_all add: at_Some_iff)
  from l have "n < length (drop i src)" by simp
  then have "take (Suc n) (drop i src) = take n (drop i src) @ [drop i src ! n]"
    by (rule take_Suc_conv_app_nth)
  then show ?thesis using l c by simp
qed

lemma heading_take:
  assumes "heading src i n"
  shows "take (Suc n) (drop i src) = replicate n HASH @ [SP]" and "i + Suc n \<le> length src"
proof -
  from assms have a: "take n (drop i src) = replicate n HASH" and b: "at src (i + n) = Some SP"
    by (simp_all add: heading_def startsWith_def)
  from b show "take (Suc n) (drop i src) = replicate n HASH @ [SP]"
    using a by (simp add: take_Suc_drop_at)
  from b show "i + Suc n \<le> length src" by (simp add: at_Some_iff)
qed

lemma match_ok_heading:
  assumes "heading src i n" "0 < n"
  shows "match_ok src i \<lparr>mvalue = replicate n HASH @ [SP], len = Suc n, isFence = False\<rparr>"
  using heading_take[OF assms(1)] assms(2)
  by (cases n) (simp_all add: match_ok_def lineLead_def)

lemma match_ok_quote:
  assumes g: "at src i = Some GT" and s: "at src (scanWhile (\<lambda>c. c = GT) src i) = Some SP"
  shows "match_ok src i \<lparr>mvalue = slice src i (scanWhile (\<lambda>c. c = GT) src i + 1),
            len = scanWhile (\<lambda>c. c = GT) src i - i + 1, isFence = False\<rparr>"
proof -
  let ?j = "scanWhile (\<lambda>c. c = GT) src i"
  have ge: "i \<le> ?j" by (rule scanWhile_ge)
  from g s have ne: "i \<noteq> ?j" by auto
  with ge have lt: "i < ?j" by simp
  from s have jl: "?j < length src" and sj: "src ! ?j = SP" by (simp_all add: at_Some_iff)
  from g have il: "i < length src" and gi: "src ! i = GT" by (simp_all add: at_Some_iff)
  have e: "?j + 1 - i = Suc (?j - i)" using ge by simp
  have v: "slice src i (?j + 1) = take (?j - i) (drop i src) @ [SP]"
    unfolding slice_def e using s ge by (subst take_Suc_drop_at[where c=SP]) simp_all
  have h: "hd (take (?j - i) (drop i src) @ [SP]) = GT"
    using lt il gi by (simp add: hd_append hd_drop_conv_nth hd_take)
  show ?thesis
    unfolding match_ok_def using v h lt jl ge e by (simp add: slice_def lineLead_def)
qed

lemma match_ok_list:
  assumes c: "at src i = Some MINUS \<or> at src i = Some PLUS \<or> at src i = Some STAR"
    and s: "at src (i + 1) = Some SP"
  shows "match_ok src i \<lparr>mvalue = slice src i (i + 2), len = 2, isFence = False\<rparr>"
proof -
  from s have l: "i + 1 < length src" and s1: "src ! (i + 1) = SP" by (simp_all add: at_Some_iff)
  then have d: "drop i src = src ! i # SP # drop (i + 2) src"
    by (metis Cons_nth_drop_Suc Suc_eq_plus1 add_2_eq_Suc' add_lessD1)
  from c l have "lineLead (src ! i)" by (auto simp: at_Some_iff lineLead_def)
  then show ?thesis unfolding match_ok_def slice_def using d l by simp
qed

lemma match_ok_ordered:
  assumes d: "case at src i of Some c \<Rightarrow> isDigit c | None \<Rightarrow> False"
    and s: "at src (scanWhile isDigit src i + 1) = Some SP"
  shows "match_ok src i \<lparr>mvalue = slice src i (scanWhile isDigit src i + 2),
            len = scanWhile isDigit src i - i + 2, isFence = False\<rparr>"
proof -
  let ?j = "scanWhile isDigit src i"
  have ge: "i \<le> ?j" by (rule scanWhile_ge)
  from s have jl: "?j + 1 < length src" and sj: "src ! (?j + 1) = SP" by (simp_all add: at_Some_iff)
  from d have il: "i < length src" and di: "isDigit (src ! i)"
    by (auto simp: at_def split: if_splits)
  define n where "n = ?j - i + 1"
  have e: "?j + 2 - i = Suc n" and e2: "?j - i + 2 = Suc n" and e3: "i + n = ?j + 1"
    using ge by (simp_all add: n_def)
  have "at src (i + n) = Some SP" using s e3 by simp
  then have v: "slice src i (?j + 2) = take n (drop i src) @ [SP]"
    unfolding slice_def e by (rule take_Suc_drop_at)
  have pos: "0 < n" by (simp add: n_def)
  have "hd (take n (drop i src) @ [SP]) = src ! i"
    using pos il by (simp add: hd_append hd_drop_conv_nth hd_take)
  moreover have "lineLead (src ! i)" using di by (simp add: lineLead_def)
  moreover have "take (Suc n) (drop i src) = take n (drop i src) @ [SP]"
    using v unfolding slice_def e .
  moreover have "i + Suc n \<le> length src" using jl e3 by simp
  ultimately show ?thesis
    unfolding match_ok_def e2 using v pos by simp
qed

lemma match_ok_fence:
  assumes f: "startsWith src (js ''```'') i"
  shows "match_ok src i
     \<lparr>mvalue = slice src i (scanWhile (\<lambda>c. c \<noteq> LF) src (i + 3))
                 @ (if at src (scanWhile (\<lambda>c. c \<noteq> LF) src (i + 3)) = Some LF then [LF] else []),
      len = length (slice src i (scanWhile (\<lambda>c. c \<noteq> LF) src (i + 3))
                 @ (if at src (scanWhile (\<lambda>c. c \<noteq> LF) src (i + 3)) = Some LF then [LF] else [])),
      isFence = True\<rparr>"
proof -
  let ?j = "scanWhile (\<lambda>c. c \<noteq> LF) src (i + 3)"
  have l3: "length (js ''```'') = 3" by (simp add: js_def)
  from f have t3: "take 3 (drop i src) = js ''```''" by (simp add: startsWith_def l3)
  then have "length (take 3 (drop i src)) = 3" using l3 by simp
  then have il: "i + 3 \<le> length src" by simp
  have ge: "i + 3 \<le> ?j" by (rule scanWhile_ge)
  have le: "?j \<le> length src" using il by (rule scanWhile_le)
  have ls: "length (slice src i ?j) = ?j - i" using le by (simp add: slice_def)
  have "3 \<le> ?j - i" using ge by arith
  then have t: "take 3 (slice src i ?j) = js ''```''"
    using t3 by (simp add: slice_def min_def)
  show ?thesis
  proof (cases "at src ?j = Some LF")
    case True
    then have "at src (i + (?j - i)) = Some LF" using ge by simp
    then have "take (Suc (?j - i)) (drop i src) = slice src i ?j @ [LF]"
      unfolding slice_def by (rule take_Suc_drop_at)
    moreover from True have "?j < length src" by (simp add: at_Some_iff)
    ultimately show ?thesis unfolding match_ok_def using True ls ge t by simp
  next
    case False
    then show ?thesis unfolding match_ok_def using ls ge le t by (simp add: slice_def)
  qed
qed

lemma js_hashes:
  "js ''###### '' = replicate 6 HASH @ [SP]" "js ''##### '' = replicate 5 HASH @ [SP]"
  "js ''#### '' = replicate 4 HASH @ [SP]" "js ''### '' = replicate 3 HASH @ [SP]"
  "js ''## '' = replicate 2 HASH @ [SP]" "js ''# '' = replicate 1 HASH @ [SP]"
  by (simp_all add: js_def numeral_eq_Suc)


lemma match_ok_headings:
  "heading src i 6 \<Longrightarrow> match_ok src i \<lparr>mvalue = js ''###### '', len = 7, isFence = False\<rparr>"
  "heading src i 5 \<Longrightarrow> match_ok src i \<lparr>mvalue = js ''##### '', len = 6, isFence = False\<rparr>"
  "heading src i 4 \<Longrightarrow> match_ok src i \<lparr>mvalue = js ''#### '', len = 5, isFence = False\<rparr>"
  "heading src i 3 \<Longrightarrow> match_ok src i \<lparr>mvalue = js ''### '', len = 4, isFence = False\<rparr>"
  "heading src i 2 \<Longrightarrow> match_ok src i \<lparr>mvalue = js ''## '', len = 3, isFence = False\<rparr>"
  "heading src i 1 \<Longrightarrow> match_ok src i \<lparr>mvalue = js ''# '', len = 2, isFence = False\<rparr>"
  using match_ok_heading[of src i 6] match_ok_heading[of src i 5] match_ok_heading[of src i 4]
    match_ok_heading[of src i 3] match_ok_heading[of src i 2] match_ok_heading[of src i 1]
  by (simp_all add: js_def numeral_eq_Suc)

lemma matchLineSyntax_cases:
  fixes src i
  defines "q \<equiv> scanWhile (\<lambda>c. c = GT) src i"
    and "d \<equiv> scanWhile isDigit src i"
    and "f \<equiv> scanWhile (\<lambda>c. c \<noteq> LF) src (i + 3)"
  assumes "matchLineSyntax src i = Some m"
  obtains
      (h6) "heading src i 6" "m = \<lparr>mvalue = js ''###### '', len = 7, isFence = False\<rparr>"
    | (h5) "heading src i 5" "m = \<lparr>mvalue = js ''##### '', len = 6, isFence = False\<rparr>"
    | (h4) "heading src i 4" "m = \<lparr>mvalue = js ''#### '', len = 5, isFence = False\<rparr>"
    | (h3) "heading src i 3" "m = \<lparr>mvalue = js ''### '', len = 4, isFence = False\<rparr>"
    | (h2) "heading src i 2" "m = \<lparr>mvalue = js ''## '', len = 3, isFence = False\<rparr>"
    | (h1) "heading src i 1" "m = \<lparr>mvalue = js ''# '', len = 2, isFence = False\<rparr>"
    | (quote) "at src i = Some GT" "at src q = Some SP"
        "m = \<lparr>mvalue = slice src i (q + 1), len = q - i + 1, isFence = False\<rparr>"
    | (ulist) "at src i = Some MINUS \<or> at src i = Some PLUS \<or> at src i = Some STAR"
        "at src (i + 1) = Some SP" "m = \<lparr>mvalue = slice src i (i + 2), len = 2, isFence = False\<rparr>"
    | (olist) "case at src i of Some c \<Rightarrow> isDigit c | None \<Rightarrow> False"
        "at src (d + 1) = Some SP"
        "m = \<lparr>mvalue = slice src i (d + 2), len = d - i + 2, isFence = False\<rparr>"
    | (fence) "startsWith src (js ''```'') i"
        "m = \<lparr>mvalue = slice src i f @ (if at src f = Some LF then [LF] else []),
              len = length (slice src i f @ (if at src f = Some LF then [LF] else [])),
              isFence = True\<rparr>"
  using assms unfolding matchLineSyntax_def Let_def
  by (simp only: split: if_splits) auto

lemma matchLineSyntax_sound:
  assumes "matchLineSyntax src i = Some m"
  shows "match_ok src i m"
  using assms
proof (cases rule: matchLineSyntax_cases)
    case h6 then show ?thesis by (simp only: match_ok_headings)
  next
    case h5 then show ?thesis by (simp only: match_ok_headings)
  next
    case h4 then show ?thesis by (simp only: match_ok_headings)
  next
    case h3 then show ?thesis by (simp only: match_ok_headings)
  next
    case h2 then show ?thesis by (simp only: match_ok_headings)
  next
    case h1 then show ?thesis by (simp only: match_ok_headings)
  next
    case quote then show ?thesis by (simp only: match_ok_quote)
  next
    case ulist then show ?thesis by (simp only: match_ok_list)
  next
    case olist then show ?thesis by (simp only: match_ok_ordered)
  next
    case fence then show ?thesis by (simp only: match_ok_fence)
qed
section \<open>Properties of one iteration\<close>

lemma step_okI:
  assumes "value tok = take n (drop (cursor st) src)" "0 < n" "cursor st + n \<le> length src"
    "cursor st' = cursor st + n"
  shows "step_ok src st tok st'"
  using assms by (auto simp: step_ok_def min_def)

lemma codePoints_ok: "concat (codePoints s) = s \<and> [] \<notin> set (codePoints s)"
  by (induction s rule: codePoints.induct) simp_all

lemma graphemes_ok:
  assumes "segmenter_ok hs"
  shows "concat (graphemes hs s) = s" and "[] \<notin> set (graphemes hs s)"
  using assms codePoints_ok[of s]
  by (simp_all add: segmenter_ok_def graphemes_def split: option.splits)

lemma graphemes_first:
  assumes ok: "segmenter_ok hs" and ne: "s \<noteq> []"
  obtains g gs where "graphemes hs s = g # gs" "g \<noteq> []" "s = g @ concat gs"
proof (cases "graphemes hs s")
  case Nil
  with graphemes_ok(1)[OF ok, of s] ne show ?thesis by simp
next
  case (Cons g gs)
  with graphemes_ok[OF ok, of s] have "g \<noteq> []" "s = g @ concat gs" by auto
  with Cons that show ?thesis by blast
qed

lemma match_okD:
  assumes "match_ok src i m"
  shows "mvalue m = take (len m) (drop i src)" and "i + len m \<le> length src"
    and "length (mvalue m) = len m"
    and "isFence m \<Longrightarrow> 3 \<le> len m" and "isFence m \<Longrightarrow> take 3 (mvalue m) = js ''```''"
    and "\<not> isFence m \<Longrightarrow> 2 \<le> len m" and "\<not> isFence m \<Longrightarrow> last (mvalue m) = SP"
    and "\<not> isFence m \<Longrightarrow> lineLead (hd (mvalue m))"
proof -
  from assms have a: "mvalue m = take (len m) (drop i src)" and b: "i + len m \<le> length src"
    and c: "if isFence m then 3 \<le> len m \<and> take 3 (mvalue m) = js ''```''
       else 2 \<le> len m \<and> last (mvalue m) = SP \<and> lineLead (hd (mvalue m))"
    unfolding match_ok_def by blast+
  show "mvalue m = take (len m) (drop i src)" by (rule a)
  show "i + len m \<le> length src" by (rule b)
  show "length (mvalue m) = len m" unfolding a using b by simp
  show "isFence m \<Longrightarrow> 3 \<le> len m" using c by (simp only: if_True)
  show "isFence m \<Longrightarrow> take 3 (mvalue m) = js ''```''" using c by (simp only: if_True)
  show "\<not> isFence m \<Longrightarrow> 2 \<le> len m" using c by (simp only: if_False)
  show "\<not> isFence m \<Longrightarrow> last (mvalue m) = SP" using c by (simp only: if_False)
  show "\<not> isFence m \<Longrightarrow> lineLead (hd (mvalue m))" using c by (simp only: if_False)
qed

lemma stripTrailingSpace_match:
  assumes "match_ok src i m" "\<not> isFence m"
  shows "stripTrailingSpace (mvalue m) = take (len m - 1) (drop i src)"
proof -
  note v = match_okD(1)[OF assms(1)] and b = match_okD(2)[OF assms(1)]
    and l = match_okD(6)[OF assms] and s = match_okD(7)[OF assms]
  from v b l have ne: "mvalue m \<noteq> []" by auto
  have "butlast (mvalue m) = take (len m - 1) (drop i src)"
    unfolding v using b by (simp add: butlast_take)
  with ne s show ?thesis by (simp add: stripTrailingSpace_def)
qed

lemma lineSyntaxStep_ok:
  assumes "lineSyntaxStep inc src st = Some (tok, st')"
  shows "step_ok src st tok st'"
proof -
  from assms obtain m where m: "matchLineSyntax src (cursor st) = Some m"
    by (auto simp: lineSyntaxStep_def Let_def split: if_splits option.splits)
  then have ok: "match_ok src (cursor st) m" by (rule matchLineSyntax_sound)
  note v = match_okD(1)[OF ok] and b = match_okD(2)[OF ok]
    and l = match_okD(4)[OF ok] match_okD(6)[OF ok]
  show ?thesis
  proof (cases "isFence m")
    case True
    with assms m have "tok = \<lparr>type = Syntax, kind = Line, value = mvalue m\<rparr>"
      "cursor st' = cursor st + len m"
      by (auto simp: lineSyntaxStep_def Let_def split: if_splits)
    then show ?thesis using v b l(1)[OF True] by (intro step_okI[where n="len m"]) simp_all
  next
    case False
    show ?thesis
    proof (cases inc)
      case True
      with assms m False have "tok = \<lparr>type = Syntax, kind = Line, value = mvalue m\<rparr>"
        "cursor st' = cursor st + length (mvalue m)"
        by (auto simp: lineSyntaxStep_def Let_def split: if_splits)
      moreover have "length (mvalue m) = len m" using v b by simp
      ultimately show ?thesis using v b l(2)[OF False]
        by (intro step_okI[where n="len m"]) simp_all
    next
      case inc: False
      have s: "stripTrailingSpace (mvalue m) = take (len m - 1) (drop (cursor st) src)"
        using ok False by (rule stripTrailingSpace_match)
      from assms m False inc have "tok = \<lparr>type = Syntax, kind = Line, value = stripTrailingSpace (mvalue m)\<rparr>"
        "cursor st' = cursor st + length (stripTrailingSpace (mvalue m))"
        by (auto simp: lineSyntaxStep_def Let_def split: if_splits)
      moreover have "length (stripTrailingSpace (mvalue m)) = len m - 1" using s b by simp
      ultimately show ?thesis using s b l(2)[OF False]
        by (intro step_okI[where n="len m - 1"]) simp_all
    qed
  qed
qed

lemma readWS_pos:
  assumes "at src i = Some ch" "isWS ch"
  shows "0 < readWS src i" "i + readWS src i \<le> length src"
    "slice src i (i + readWS src i) = takeWhile isWS (drop i src)"
proof -
  from assms have l: "i < length src" and c: "isWS (src ! i)" by (simp_all add: at_Some_iff)
  then have d: "drop i src = src ! i # drop (Suc i) src" by (simp add: Cons_nth_drop_Suc)
  have r: "readWS src i = length (takeWhile isWS (drop i src))"
    by (simp add: readWS_def scanWhile_takeWhile)
  show "0 < readWS src i" unfolding r using d c by simp
  have "length (takeWhile isWS (drop i src)) \<le> length (drop i src)" by (rule length_takeWhile_le)
  then show "i + readWS src i \<le> length src" unfolding r using l by simp
  show "slice src i (i + readWS src i) = takeWhile isWS (drop i src)"
    unfolding r slice_def by (simp add: takeWhile_eq_take[symmetric])
qed

lemma displayStep_ok:
  assumes ok: "segmenter_ok hs" and l: "cursor st < length src"
  obtains tok st' where "displayStep hs src st = Inr (tok, st')" "step_ok src st tok st'"
    "type tok = Display" "stack st' = stack st" "inFence st' = inFence st"
proof (cases "case at src (cursor st) of Some ch \<Rightarrow> isWS ch | None \<Rightarrow> False")
  case True
  then obtain ch where ch: "at src (cursor st) = Some ch" "isWS ch" by (auto split: option.splits)
  note r = readWS_pos[OF ch]
  let ?n = "readWS src (cursor st)"
  let ?tok = "\<lparr>type = Display, kind = Whitespace, value = slice src (cursor st) (cursor st + ?n)\<rparr>"
  let ?st = "st\<lparr>cursor := cursor st + ?n\<rparr>"
  have e: "displayStep hs src st = Inr (?tok, ?st)"
    using True by (simp add: displayStep_def Let_def)
  have "step_ok src st ?tok ?st"
    using r by (intro step_okI[where n="?n"]) (simp_all add: slice_def)
  with e that show ?thesis by simp
next
  case False
  from l have "drop (cursor st) src \<noteq> []" by simp
  with ok obtain g gs where g: "graphemes hs (drop (cursor st) src) = g # gs" "g \<noteq> []"
    "drop (cursor st) src = g @ concat gs" by (rule graphemes_first)
  let ?tok = "\<lparr>type = Display, kind = Default, value = g\<rparr>"
  let ?st = "st\<lparr>cursor := cursor st + length g\<rparr>"
  have e: "displayStep hs src st = Inr (?tok, ?st)"
    using False g(1) by (simp add: displayStep_def Let_def)
  have "length (drop (cursor st) src) = length g + length (concat gs)" using g(3) by simp
  then have "cursor st + length g \<le> length src" using l by simp
  then have "step_ok src st ?tok ?st"
    using g(2,3) by (intro step_okI[where n="length g"]) simp_all
  with e that show ?thesis by simp
qed

lemma indexOf_Some:
  assumes "indexOf src c from = Some k"
  shows "from \<le> k" and "k < length src" and "src ! k = c"
    and "k = from + length (takeWhile (\<lambda>x. x \<noteq> c) (drop from src))"
proof -
  let ?j = "scanWhile (\<lambda>x. x \<noteq> c) src from"
  from assms have k: "k = ?j" and l: "?j < length src"
    by (auto simp: indexOf_def Let_def split: if_splits)
  show "from \<le> k" unfolding k by (rule scanWhile_ge)
  show "k < length src" unfolding k by (rule l)
  from l have "at src ?j = Some (src ! ?j)" by (simp add: at_def)
  then have "\<not> (src ! ?j \<noteq> c)" by (rule scanWhile_stop)
  then show "src ! k = c" unfolding k by simp
  show "k = from + length (takeWhile (\<lambda>x. x \<noteq> c) (drop from src))"
    unfolding k by (rule scanWhile_takeWhile)
qed

lemma indexOf_None:
  assumes "indexOf src c from = None"
  shows "c \<notin> set (drop from src)"
proof
  assume m: "c \<in> set (drop from src)"
  let ?xs = "drop from src"
  let ?n = "length (takeWhile (\<lambda>x. x \<noteq> c) ?xs)"
  from assms have "\<not> from + ?n < length src"
    by (auto simp: indexOf_def Let_def scanWhile_takeWhile split: if_splits)
  moreover have "?n \<le> length ?xs" by (rule length_takeWhile_le)
  ultimately have "?n = length ?xs" by simp
  moreover have "takeWhile (\<lambda>x. x \<noteq> c) ?xs = take ?n ?xs" by (rule takeWhile_eq_take)
  ultimately have "takeWhile (\<lambda>x. x \<noteq> c) ?xs = ?xs" by simp
  then have "\<forall>x\<in>set ?xs. x \<noteq> c" by (simp only: takeWhile_eq_all_conv)
  with m show False by blast
qed

lemma htmlStep_ok:
  assumes "htmlStep src st = Some (tok, st')"
  shows "step_ok src st tok st'" and "type tok = Syntax" and "kind tok = Open \<or> kind tok = Close"
    and "stack st' = stack st" and "inFence st' = inFence st"
proof -
  let ?i = "cursor st"
  from assms obtain k where k: "indexOf src GT (?i + 1) = Some k"
    and lt: "at src ?i = Some LT"
    by (auto simp: htmlStep_def Let_def split: if_splits option.splits)
  from assms k have tok: "value tok = slice src ?i (k + 1)" "type tok = Syntax"
      "kind tok = Open \<or> kind tok = Close"
    and st': "st' = st\<lparr>cursor := k + 1\<rparr>"
    by (auto simp: htmlStep_def Let_def split: if_splits)
  note ik = indexOf_Some(1,2)[OF k]
  show "step_ok src st tok st'"
    using tok(1) st' ik by (intro step_okI[where n="k + 1 - ?i"]) (simp_all add: slice_def)
  show "type tok = Syntax" by (rule tok(2))
  show "kind tok = Open \<or> kind tok = Close" by (rule tok(3))
  show "stack st' = stack st" "inFence st' = inFence st" using st' by simp_all
qed

lemma take1_drop: "at src i = Some c \<Longrightarrow> take (Suc 0) (drop i src) = [c]"
  using take_Suc_drop_at[of src i 0 c] by simp

lemma take2_drop:
  "at src i = Some c \<Longrightarrow> at src (i + 1) = Some d \<Longrightarrow> take (Suc (Suc 0)) (drop i src) = [c, d]"
  using take_Suc_drop_at[of src i 1 d] take1_drop[of src i c] by simp

lemma toggle_ok:
  assumes "value_of = take (length v) (drop (cursor st) src)" "value_of = v" "v \<noteq> []"
    "cursor st + length v \<le> length src" "toggle mk v st = (tok, st')"
  shows "step_ok src st tok st'" and "type tok = Syntax" and "kind tok = Open \<or> kind tok = Close"
    and "inFence st' = inFence st"
proof -
  from assms(5) have t: "value tok = v" "cursor st' = cursor st + length v" "type tok = Syntax"
    "kind tok = Open \<or> kind tok = Close" "inFence st' = inFence st"
    by (auto simp: toggle_def split: if_splits)
  show "step_ok src st tok st'"
    using assms(1-4) t(1,2) by (intro step_okI[where n="length v"]) simp_all
  show "type tok = Syntax" "kind tok = Open \<or> kind tok = Close" "inFence st' = inFence st"
    by (rule t(3) t(4) t(5))+
qed

lemma markStep_ok:
  assumes "markStep src st = Some (tok, st')"
  shows "step_ok src st tok st'" and "type tok = Syntax" and "kind tok = Open \<or> kind tok = Close"
    and "inFence st' = inFence st"
proof -
  let ?i = "cursor st"
  have l1: "length (js ''*'') = 1" "length (js ''_'') = 1" "length (js ''`'') = 1"
    "length (js ''**'') = 2" by (simp_all add: js_def)
  have v1: "js ''*'' = [STAR]" "js ''_'' = [USCORE]" "js ''`'' = [BTICK]" "js ''**'' = [STAR, STAR]"
    by (simp_all add: js_def)
  have one: "\<And>c mk. at src ?i = Some c \<Longrightarrow> toggle mk [c] st = (tok, st') \<Longrightarrow>
     step_ok src st tok st' \<and> type tok = Syntax \<and> (kind tok = Open \<or> kind tok = Close)
       \<and> inFence st' = inFence st"
  proof -
    fix c mk assume a: "at src ?i = Some c" and t: "toggle mk [c] st = (tok, st')"
    from a have "?i + length [c] \<le> length src" by (simp add: at_Some_iff)
    moreover have "[c] = take (length [c]) (drop ?i src)" using take1_drop[OF a] by simp
    ultimately show "step_ok src st tok st' \<and> type tok = Syntax \<and> (kind tok = Open \<or> kind tok = Close)
       \<and> inFence st' = inFence st"
      using toggle_ok[of "[c]" "[c]" st src mk tok st'] t by simp
  qed
  have two: "at src ?i = Some STAR \<Longrightarrow> at src (?i + 1) = Some STAR \<Longrightarrow>
     toggle STRONG [STAR, STAR] st = (tok, st') \<Longrightarrow>
     step_ok src st tok st' \<and> type tok = Syntax \<and> (kind tok = Open \<or> kind tok = Close)
       \<and> inFence st' = inFence st"
  proof -
    assume a: "at src ?i = Some STAR" and b: "at src (?i + 1) = Some STAR"
      and t: "toggle STRONG [STAR, STAR] st = (tok, st')"
    from b have "?i + length [STAR, STAR] \<le> length src" by (simp add: at_Some_iff)
    moreover have "[STAR, STAR] = take (length [STAR, STAR]) (drop ?i src)"
      using take2_drop[OF a b] by simp
    ultimately show ?thesis
      using toggle_ok[of "[STAR, STAR]" "[STAR, STAR]" st src STRONG tok st'] t by simp
  qed
  have close: "at src ?i = Some BTICK \<Longrightarrow> tok = \<lparr>type = Syntax, kind = Close, value = [BTICK]\<rparr>
     \<Longrightarrow> st' = st\<lparr>stack := butlast (stack st), cursor := ?i + 1\<rparr> \<Longrightarrow>
     step_ok src st tok st' \<and> type tok = Syntax \<and> (kind tok = Open \<or> kind tok = Close)
       \<and> inFence st' = inFence st"
  proof -
    assume a: "at src ?i = Some BTICK" and t: "tok = \<lparr>type = Syntax, kind = Close, value = [BTICK]\<rparr>"
      and s: "st' = st\<lparr>stack := butlast (stack st), cursor := ?i + 1\<rparr>"
    from a have "?i + 1 \<le> length src" by (simp add: at_Some_iff)
    then have "step_ok src st tok st'"
      using take1_drop[OF a] t s by (intro step_okI[where n=1]) simp_all
    then show ?thesis using t s by simp
  qed
  have "step_ok src st tok st' \<and> type tok = Syntax \<and> (kind tok = Open \<or> kind tok = Close)
       \<and> inFence st' = inFence st"
    using assms one[of STAR EM] one[of USCORE UNDER] one[of BTICK CODE] two close
    unfolding markStep_def Let_def v1
    by (auto split: if_splits)
  then show "step_ok src st tok st'" and "type tok = Syntax"
    and "kind tok = Open \<or> kind tok = Close" and "inFence st' = inFence st" by blast+
qed

lemma step_total:
  assumes ok: "segmenter_ok hs" and l: "cursor st < length src"
  obtains tok st' where "step hs inc src st = Inr (tok, st')" "step_ok src st tok st'"
proof (cases "lineSyntaxStep inc src st")
  case (Some r)
  obtain tok st' where r: "r = (tok, st')" by (cases r)
  with Some have "step hs inc src st = Inr (tok, st')" by (simp add: step_def)
  moreover have "step_ok src st tok st'" using Some r lineSyntaxStep_ok by blast
  ultimately show ?thesis by (rule that)
next
  case None
  from ok l obtain dtok dst where d: "displayStep hs src st = Inr (dtok, dst)"
    "step_ok src st dtok dst" by (rule displayStep_ok)
  show ?thesis
  proof (cases "inFence st")
    case True
    with None d(1) have "step hs inc src st = Inr (dtok, dst)" by (simp add: step_def)
    then show ?thesis using d(2) by (rule that)
  next
    case False
    show ?thesis
    proof (cases "htmlStep src st")
      case (Some r)
      obtain tok st' where r: "r = (tok, st')" by (cases r)
      with Some None False have "step hs inc src st = Inr (tok, st')" by (simp add: step_def)
      moreover have "step_ok src st tok st'" using Some r htmlStep_ok(1) by blast
      ultimately show ?thesis by (rule that)
    next
      case hNone: None
      show ?thesis
      proof (cases "markStep src st")
        case (Some r)
        obtain tok st' where r: "r = (tok, st')" by (cases r)
        with Some None hNone False have "step hs inc src st = Inr (tok, st')"
          by (simp add: step_def)
        moreover have "step_ok src st tok st'" using Some r markStep_ok(1) by blast
        ultimately show ?thesis by (rule that)
      next
        case mNone: None
        with None hNone False d(1) have "step hs inc src st = Inr (dtok, dst)"
          by (simp add: step_def)
        then show ?thesis using d(2) by (rule that)
      qed
    qed
  qed
qed

section \<open>Properties of the loop\<close>

lemma step_Inr_ok:
  assumes "segmenter_ok hs" "cursor st < length src" "step hs inc src st = Inr (tok, st')"
  shows "step_ok src st tok st'"
proof -
  from assms(1,2) obtain tok2 st2 where "step hs inc src st = Inr (tok2, st2)"
    "step_ok src st tok2 st2" by (rule step_total)
  with assms(3) show ?thesis by simp
qed

lemma scanLoop_chain:
  assumes ok: "segmenter_ok hs"
  shows "cursor st \<le> length src \<Longrightarrow>
    \<exists>tr fin. scanLoop hs inc src st acc = Some (Inr (acc @ tr)) \<and> chain hs inc src st tr fin
       \<and> cursor fin = length src"
proof (induction "length src - cursor st" arbitrary: st acc rule: less_induct)
  case less
  show ?case
  proof (cases "cursor st < length src")
    case False
    with less.prems have e: "cursor st = length src" by simp
    have "scanLoop hs inc src st acc = Some (Inr (acc @ []))"
      using False by (subst scanLoop.simps) simp
    moreover have "chain hs inc src st [] st" by simp
    ultimately show ?thesis using e by blast
  next
    case True
    with ok obtain tok st' where s: "step hs inc src st = Inr (tok, st')"
      and sok: "step_ok src st tok st'" by (rule step_total)
    from sok have gt: "cursor st < cursor st'" and le: "cursor st' \<le> length src"
      by (auto simp: step_ok_def)
    then have "length src - cursor st' < length src - cursor st" using True by simp
    from less.hyps[OF this le, of "acc @ [(st, tok, st')]"]
    obtain tr fin where r: "scanLoop hs inc src st' (acc @ [(st, tok, st')])
         = Some (Inr ((acc @ [(st, tok, st')]) @ tr))"
      and c: "chain hs inc src st' tr fin" and f: "cursor fin = length src" by blast
    have "scanLoop hs inc src st acc = Some (Inr (acc @ ((st, tok, st') # tr)))"
      using True s r by (subst scanLoop.simps) simp
    moreover have "chain hs inc src st ((st, tok, st') # tr) fin" using True s c by simp
    ultimately show ?thesis using f by blast
  qed
qed

lemma scanTrace_chain:
  assumes ok: "segmenter_ok hs"
  obtains tr fin where "scanTrace hs opts src = Some (Inr tr)"
    "chain hs (includeSpaceOf opts) src initialState tr fin" "cursor fin = length src"
proof -
  have "cursor initialState \<le> length src" by (simp add: initialState_def)
  from scanLoop_chain[OF ok this, of "includeSpaceOf opts" "[]"] that
  show ?thesis by (auto simp: scanTrace_def)
qed

lemma stream_of_trace:
  "scanTrace hs opts src = Some (Inr tr) \<Longrightarrow>
     createUnifiedStream hs opts src = Some (Inr (tokensOf tr))"
  by (simp add: createUnifiedStream_def createUnifiedStreamSync_def tokensOf_def)

lemma chain_concat:
  assumes ok: "segmenter_ok hs"
  shows "chain hs inc src st tr fin \<Longrightarrow>
     concat (map value (tokensOf tr)) @ drop (cursor fin) src = drop (cursor st) src"
proof (induction tr arbitrary: st)
  case Nil
  then show ?case by (simp add: tokensOf_def)
next
  case (Cons it tr)
  obtain a tok b where it: "it = (a, tok, b)" by (cases it)
  from Cons.prems it have a: "a = st" and l: "cursor st < length src"
    and s: "step hs inc src st = Inr (tok, b)" and c: "chain hs inc src b tr fin" by simp_all
  from ok l s have sok: "step_ok src st tok b" by (rule step_Inr_ok)
  then have v: "value tok = take (length (value tok)) (drop (cursor st) src)"
    and cb: "cursor b = cursor st + length (value tok)" by (simp_all add: step_ok_def)
  have "drop (cursor st) src = value tok @ drop (cursor b) src"
    using v cb by (metis append_take_drop_id drop_drop add.commute)
  with Cons.IH[OF c] show ?case by (simp add: it tokensOf_def)
qed

section \<open>Round-trip fidelity\<close>

text \<open>
  C1. For every input string and every options value, the scan returns, and the
  concatenation of the \<open>value\<close> fields of the tokens of \<open>createUnifiedStream\<close>, in the order
  of emission, is the input string.  The runtime's segmenter, when there is one, is assumed
  to split a string into non-empty segments that concatenate to it.
\<close>

theorem roundtrip_fidelity:
  assumes "segmenter_ok hs"
  shows "\<exists>toks. createUnifiedStream hs opts src = Some (Inr toks)
            \<and> concat (map value toks) = src"
proof -
  from assms obtain tr fin where t: "scanTrace hs opts src = Some (Inr tr)"
    and c: "chain hs (includeSpaceOf opts) src initialState tr fin"
    and f: "cursor fin = length src" by (rule scanTrace_chain)
  from chain_concat[OF assms c] f have "concat (map value (tokensOf tr)) = src"
    by (simp add: initialState_def)
  with stream_of_trace[OF t] show ?thesis by blast
qed

theorem roundtrip_fidelity_witness:
  "segmenter_ok None \<and>
   (\<exists>toks. createUnifiedStream None defaultOptions (js ''# Hi *x*'') = Some (Inr toks)
            \<and> concat (map value toks) = js ''# Hi *x*'')"
  using roundtrip_fidelity[of None defaultOptions "js ''# Hi *x*''"] by (simp add: segmenter_ok_def)

section \<open>Evaluating the scanner on a given input\<close>

lemma replicate_eval:
  "replicate 1 x = [x]" "replicate 2 x = [x, x]" "replicate 3 x = [x, x, x]"
  "replicate 4 x = [x, x, x, x]" "replicate 5 x = [x, x, x, x, x]"
  "replicate 6 x = [x, x, x, x, x, x]"
  by (simp_all add: numeral_eq_Suc)

lemmas scan_eval = scanTrace_def createUnifiedStream_def createUnifiedStreamSync_def
  initialState_def defaultOptions_def includeSpaceOf_def
  step_def lineSyntaxStep_def displayStep_def htmlStep_def markStep_def toggle_def
  matchLineSyntax_def heading_def startsWith_def at_def slice_def atLineStart_def top_def
  stripTrailingSpace_def indexOf_def readWS_def isWS_def isDigit_def js_def Let_def
  replicate_eval

lemmas segmenter_eval = graphemes_def isHighSurrogate_def isLowSurrogate_def

section \<open>The tag-closing helper\<close>

lemma toClosingTag_examples:
  "toClosingTag (JString (js ''<ul>'')) = js ''</ul>''"
  "toClosingTag (JString (js ''<div class=x>'')) = js ''</div>''"
  "toClosingTag (JString (js ''<br/>'')) = []"
  "toClosingTag JOther = []"
  by (simp_all add: toClosingTag_def trim_def isSpace_def startsWith_def endsWith_def js_def
      matchTagName_def isTagNameChar_def)

lemma toClosingTag_of_closing_tag:
  assumes "startsWith (trim s) (js ''</'') 0"
  shows "toClosingTag (JString s) = []"
  using assms by (simp add: toClosingTag_def Let_def)

text \<open>
  C2. \<open>toClosingTag\<close> is documented to return a closing tag unchanged.  The code returns
  the empty string for it: the test \<open>s.startsWith('</')\<close> shares the early return of the
  self-closing tags.
\<close>

theorem toClosingTag_closing_tag:
  "toClosingTag (JString (js ''</div>'')) = []"
  by (simp add: toClosingTag_def trim_def isSpace_def startsWith_def endsWith_def js_def)

section \<open>End-to-end scenario\<close>

text \<open>
  C9. With the default options, the scan of \<open># Hi *x*\<close> yields the line token \<open># \<close>, the
  display tokens \<open>H\<close> and \<open>i\<close>, the whitespace token of one space, the open token \<open>*\<close>, the
  display token \<open>x\<close> and the close token \<open>*\<close>, in this order, with any segmenter
  for which each of the letters \<open>H\<close>, \<open>i\<close>, \<open>x\<close> is a grapheme of its own here.
\<close>

theorem end_to_end:
  assumes "\<exists>gs. graphemes hs (js ''Hi *x*'') = js ''H'' # gs"
    and "\<exists>gs. graphemes hs (js ''i *x*'') = js ''i'' # gs"
    and "\<exists>gs. graphemes hs (js ''x*'') = js ''x'' # gs"
  shows "createUnifiedStream hs defaultOptions (js ''# Hi *x*'') =
   Some (Inr [\<lparr>type = Syntax, kind = Line, value = js ''# ''\<rparr>,
              \<lparr>type = Display, kind = Default, value = js ''H''\<rparr>,
              \<lparr>type = Display, kind = Default, value = js ''i''\<rparr>,
              \<lparr>type = Display, kind = Whitespace, value = js '' ''\<rparr>,
              \<lparr>type = Syntax, kind = Open, value = js ''*''\<rparr>,
              \<lparr>type = Display, kind = Default, value = js ''x''\<rparr>,
              \<lparr>type = Syntax, kind = Close, value = js ''*''\<rparr>])"
proof -
  from assms obtain g1 g2 g3 where g: "graphemes hs (js ''Hi *x*'') = js ''H'' # g1"
    "graphemes hs (js ''i *x*'') = js ''i'' # g2" "graphemes hs (js ''x*'') = js ''x'' # g3"
    by blast
  show ?thesis
    using g by (simp add: scan_eval scanLoop.simps scanWhile.simps)
qed

text \<open>The scenario without \<open>Intl.Segmenter\<close>, where the string is iterated by code points.\<close>

theorem end_to_end_witness:
  "createUnifiedStream None defaultOptions (js ''# Hi *x*'') =
   Some (Inr [\<lparr>type = Syntax, kind = Line, value = js ''# ''\<rparr>,
              \<lparr>type = Display, kind = Default, value = js ''H''\<rparr>,
              \<lparr>type = Display, kind = Default, value = js ''i''\<rparr>,
              \<lparr>type = Display, kind = Whitespace, value = js '' ''\<rparr>,
              \<lparr>type = Syntax, kind = Open, value = js ''*''\<rparr>,
              \<lparr>type = Display, kind = Default, value = js ''x''\<rparr>,
              \<lparr>type = Syntax, kind = Close, value = js ''*''\<rparr>])"
  using end_to_end[of None] by (simp add: segmenter_eval js_def)

section \<open>The sections of an iteration\<close>

lemma step_cases [consumes 1, case_names line fenced html mark display]:
  assumes "step hs inc src st = Inr (tok, st')"
  obtains "lineSyntaxStep inc src st = Some (tok, st')"
  | "lineSyntaxStep inc src st = None" "inFence st" "displayStep hs src st = Inr (tok, st')"
  | "lineSyntaxStep inc src st = None" "\<not> inFence st" "htmlStep src st = Some (tok, st')"
  | "lineSyntaxStep inc src st = None" "\<not> inFence st" "htmlStep src st = None"
      "markStep src st = Some (tok, st')"
  | "lineSyntaxStep inc src st = None" "\<not> inFence st" "htmlStep src st = None"
      "markStep src st = None" "displayStep hs src st = Inr (tok, st')"
  using assms unfolding step_def
  by (auto split: option.splits if_splits)

lemma lineSyntaxStep_cases [consumes 1, case_names fence marker]:
  assumes "lineSyntaxStep inc src st = Some (tok, st')"
  obtains m where "atLineStart src (cursor st)" "matchLineSyntax src (cursor st) = Some m"
      "isFence m" "tok = \<lparr>type = Syntax, kind = Line, value = mvalue m\<rparr>"
      "st' = st\<lparr>cursor := cursor st + len m, inFence := \<not> inFence st\<rparr>"
  | m where "atLineStart src (cursor st)" "matchLineSyntax src (cursor st) = Some m"
      "\<not> isFence m" "\<not> inFence st"
      "tok = \<lparr>type = Syntax, kind = Line,
              value = (if inc then mvalue m else stripTrailingSpace (mvalue m))\<rparr>"
      "st' = st\<lparr>cursor := cursor st + length (value tok)\<rparr>"
  using assms unfolding lineSyntaxStep_def Let_def
  by (auto split: option.splits if_splits)

lemma displayStep_InrD:
  assumes "displayStep hs src st = Inr (tok, st')"
  shows "type tok = Display" and "stack st' = stack st" and "inFence st' = inFence st"
    and "kind tok = Whitespace \<or> kind tok = Default"
    and "kind tok = Whitespace \<longleftrightarrow> (case at src (cursor st) of Some ch \<Rightarrow> isWS ch | None \<Rightarrow> False)"
    and "kind tok = Whitespace \<Longrightarrow> value tok = takeWhile isWS (drop (cursor st) src)"
proof -
  show "type tok = Display" "stack st' = stack st" "inFence st' = inFence st"
    "kind tok = Whitespace \<or> kind tok = Default"
    "kind tok = Whitespace \<longleftrightarrow> (case at src (cursor st) of Some ch \<Rightarrow> isWS ch | None \<Rightarrow> False)"
    using assms unfolding displayStep_def Let_def
    by (auto split: option.splits if_splits list.splits)
  assume "kind tok = Whitespace"
  with assms have w: "case at src (cursor st) of Some ch \<Rightarrow> isWS ch | None \<Rightarrow> False"
    and v: "value tok = slice src (cursor st) (cursor st + readWS src (cursor st))"
    unfolding displayStep_def Let_def
    by (auto split: option.splits if_splits list.splits)
  from w obtain ch where "at src (cursor st) = Some ch" "isWS ch" by (auto split: option.splits)
  from readWS_pos(3)[OF this] v show "value tok = takeWhile isWS (drop (cursor st) src)" by simp
qed

lemma chain_iterations:
  "chain hs inc src st tr fin \<Longrightarrow> (a, tok, b) \<in> set tr \<Longrightarrow>
     cursor a < length src \<and> step hs inc src a = Inr (tok, b)"
proof (induction tr arbitrary: st)
  case Nil then show ?case by simp
next
  case (Cons it tr)
  obtain a' tok' b' where it: "it = (a', tok', b')" by (cases it)
  with Cons.prems(1) have h: "a' = st" "cursor st < length src"
    "step hs inc src st = Inr (tok', b')" "chain hs inc src b' tr fin" by simp_all
  from Cons.prems(2) it consider "(a, tok, b) = (a', tok', b')" | "(a, tok, b) \<in> set tr" by auto
  then show ?case
  proof cases
    case 1 with h show ?thesis by simp
  next
    case 2 with Cons.IH[OF h(4)] show ?thesis by simp
  qed
qed

lemma match_hd:
  assumes "match_ok src i m"
  shows "i < length src" and "hd (mvalue m) = src ! i"
    and "\<not> isFence m \<Longrightarrow> hd (stripTrailingSpace (mvalue m)) = src ! i"
    and "isFence m \<Longrightarrow> src ! i = BTICK" and "\<not> isFence m \<Longrightarrow> lineLead (src ! i)"
proof -
  note v = match_okD(1)[OF assms] and b = match_okD(2)[OF assms]
  have l: "1 \<le> len m" using match_okD(4,6)[OF assms] by (cases "isFence m") simp_all
  with b show il: "i < length src" by simp
  show h: "hd (mvalue m) = src ! i" unfolding v using l il by (simp add: hd_take hd_drop_conv_nth)
  { assume nf: "\<not> isFence m"
    have "stripTrailingSpace (mvalue m) = take (len m - 1) (drop i src)"
      using assms nf by (rule stripTrailingSpace_match)
    moreover have "0 < len m - 1" using match_okD(6)[OF assms nf] by simp
    ultimately show "hd (stripTrailingSpace (mvalue m)) = src ! i"
      using il by (simp add: hd_take hd_drop_conv_nth)
    show "lineLead (src ! i)" using match_okD(8)[OF assms nf] h by simp }
  { assume f: "isFence m"
    have "hd (take 3 (mvalue m)) = hd (mvalue m)" by (simp add: hd_take)
    then show "src ! i = BTICK" using match_okD(5)[OF assms f] h by (simp add: js_def) }
qed

lemma lineLead_not_btick: "lineLead c \<Longrightarrow> c \<noteq> BTICK"
  by (auto simp: lineLead_def isDigit_def)

lemma lineLead_not_ws: "lineLead c \<Longrightarrow> \<not> isWS c"
  by (auto simp: lineLead_def isDigit_def isWS_def)

lemma startsWith_hd: "startsWith v (js ''```'') 0 \<Longrightarrow> hd v = BTICK"
proof -
  assume "startsWith v (js ''```'') 0"
  moreover have "length (js ''```'') = 3" by (simp add: js_def)
  ultimately have "take 3 v = js ''```''" by (simp add: startsWith_def)
  then have "take 3 v = [BTICK, BTICK, BTICK]" by (simp add: js_def)
  moreover have "hd (take 3 v) = hd v" by (simp add: hd_take)
  ultimately show ?thesis by simp
qed

lemma step_fence:
  assumes "step hs inc src st = Inr (tok, st')"
  shows "fenceToken tok \<longleftrightarrow> inFence st' \<noteq> inFence st"
    and "inFence st \<Longrightarrow> \<not> fenceToken tok \<Longrightarrow> type tok = Display"
proof -
  have "(fenceToken tok \<longleftrightarrow> inFence st' \<noteq> inFence st)
        \<and> (inFence st \<and> \<not> fenceToken tok \<longrightarrow> type tok = Display)"
    using assms
  proof (cases rule: step_cases)
    case line
    then show ?thesis
    proof (cases rule: lineSyntaxStep_cases)
      case (fence m)
      from fence(2) have ok: "match_ok src (cursor st) m" by (rule matchLineSyntax_sound)
      have "length (js ''```'') = 3" by (simp add: js_def)
      then have "startsWith (value tok) (js ''```'') 0"
        using fence(4) match_okD(5)[OF ok fence(3)] by (simp add: startsWith_def)
      then have "fenceToken tok" using fence(4) by (simp add: fenceToken_def)
      then show ?thesis using fence(5) by simp
    next
      case (marker m)
      from marker(2) have ok: "match_ok src (cursor st) m" by (rule matchLineSyntax_sound)
      have "hd (value tok) = src ! cursor st"
        using marker(5) match_hd(2,3)[OF ok] marker(3) by simp
      moreover have "src ! cursor st \<noteq> BTICK"
        using match_hd(5)[OF ok marker(3)] by (rule lineLead_not_btick)
      ultimately have "\<not> fenceToken tok" using startsWith_hd[of "value tok"]
        by (auto simp: fenceToken_def)
      then show ?thesis using marker(4,6) by simp
    qed
  next
    case fenced
    from displayStep_InrD(1,3)[OF fenced(3)] show ?thesis by (simp add: fenceToken_def)
  next
    case html
    from htmlStep_ok(3,5)[OF html(3)] html(2) show ?thesis by (auto simp: fenceToken_def)
  next
    case mark
    from markStep_ok(3,4)[OF mark(4)] mark(2) show ?thesis by (auto simp: fenceToken_def)
  next
    case display
    from displayStep_InrD(1,3)[OF display(5)] show ?thesis by (simp add: fenceToken_def)
  qed
  then show "fenceToken tok \<longleftrightarrow> inFence st' \<noteq> inFence st"
    and "inFence st \<Longrightarrow> \<not> fenceToken tok \<Longrightarrow> type tok = Display" by blast+
qed

lemma chain_fenceRegions:
  "chain hs inc src st tr fin \<Longrightarrow> fenceRegions (inFence st) (tokensOf tr)"
proof (induction tr arbitrary: st)
  case Nil then show ?case by (simp add: tokensOf_def)
next
  case (Cons it tr)
  obtain a tok b where it: "it = (a, tok, b)" by (cases it)
  with Cons.prems have s: "step hs inc src st = Inr (tok, b)" and c: "chain hs inc src b tr fin"
    by simp_all
  note f = step_fence[OF s]
  have t: "tokensOf (it # tr) = tok # tokensOf tr" by (simp add: tokensOf_def it)
  show ?case
  proof (cases "fenceToken tok")
    case True
    with f(1) have "inFence b = (\<not> inFence st)" by auto
    with Cons.IH[OF c] True show ?thesis unfolding t by simp
  next
    case False
    with f(1) have "inFence b = inFence st" by auto
    with Cons.IH[OF c] False f(2) show ?thesis unfolding t by simp
  qed
qed

section \<open>Fence sanctity\<close>

text \<open>
  C3. For every input, the scan returns, and every token emitted while the fence flag is
  set, other than a fence-delimiter \<open>line\<close> token, is a display token; the flag changes at
  the fence-delimiter tokens and only there, so in the token sequence every token between
  a fence-opening and the next fence-delimiter token is a display token.
\<close>

theorem fence_sanctity:
  assumes "segmenter_ok hs"
  shows "\<exists>tr. scanTrace hs opts src = Some (Inr tr)
          \<and> createUnifiedStream hs opts src = Some (Inr (tokensOf tr))
          \<and> (\<forall>(st, tok, st') \<in> set tr.
                (fenceToken tok \<longleftrightarrow> inFence st' \<noteq> inFence st)
                \<and> (inFence st \<and> \<not> fenceToken tok \<longrightarrow> type tok = Display))
          \<and> fenceRegions False (tokensOf tr)"
proof -
  from assms obtain tr fin where t: "scanTrace hs opts src = Some (Inr tr)"
    and c: "chain hs (includeSpaceOf opts) src initialState tr fin" by (rule scanTrace_chain)
  have "\<forall>(st, tok, st') \<in> set tr. (fenceToken tok \<longleftrightarrow> inFence st' \<noteq> inFence st)
                \<and> (inFence st \<and> \<not> fenceToken tok \<longrightarrow> type tok = Display)"
  proof (clarify, intro conjI impI)
    fix st tok st' assume "(st, tok, st') \<in> set tr"
    with c have s: "step hs (includeSpaceOf opts) src st = Inr (tok, st')"
      using chain_iterations by blast
    show "fenceToken tok \<longleftrightarrow> inFence st' \<noteq> inFence st" by (rule step_fence(1)[OF s])
    assume "inFence st \<and> \<not> fenceToken tok"
    then show "type tok = Display" using step_fence(2)[OF s] by simp
  qed
  moreover have "fenceRegions False (tokensOf tr)"
    using chain_fenceRegions[OF c] by (simp add: initialState_def)
  ultimately show ?thesis using t stream_of_trace[OF t] by blast
qed


lemma fence_example:
  "createUnifiedStream None defaultOptions (js (''```js'' @ [CHR 0x0A] @ ''# *a*'' @ [CHR 0x0A] @ ''```'')) =
   Some (Inr [\<lparr>type = Syntax, kind = Line, value = js (''```js'' @ [CHR 0x0A])\<rparr>,
              \<lparr>type = Display, kind = Default, value = js ''#''\<rparr>,
              \<lparr>type = Display, kind = Whitespace, value = js '' ''\<rparr>,
              \<lparr>type = Display, kind = Default, value = js ''*''\<rparr>,
              \<lparr>type = Display, kind = Default, value = js ''a''\<rparr>,
              \<lparr>type = Display, kind = Default, value = js ''*''\<rparr>,
              \<lparr>type = Display, kind = Whitespace, value = js [CHR 0x0A]\<rparr>,
              \<lparr>type = Syntax, kind = Line, value = js ''```''\<rparr>])"
  by (simp add: scan_eval segmenter_eval scanLoop.simps scanWhile.simps)

theorem fence_sanctity_witness:
  "segmenter_ok None \<and>
   fenceRegions False
     [\<lparr>type = Syntax, kind = Line, value = js (''```js'' @ [CHR 0x0A])\<rparr>,
      \<lparr>type = Display, kind = Default, value = js ''#''\<rparr>,
      \<lparr>type = Display, kind = Whitespace, value = js '' ''\<rparr>,
      \<lparr>type = Display, kind = Default, value = js ''*''\<rparr>,
      \<lparr>type = Display, kind = Default, value = js ''a''\<rparr>,
      \<lparr>type = Display, kind = Default, value = js ''*''\<rparr>,
      \<lparr>type = Display, kind = Whitespace, value = js [CHR 0x0A]\<rparr>,
      \<lparr>type = Syntax, kind = Line, value = js ''```''\<rparr>]"
proof -
  have ok: "segmenter_ok None" by (simp add: segmenter_ok_def)
  from fence_sanctity[OF ok, of defaultOptions
      "js (''```js'' @ [CHR 0x0A] @ ''# *a*'' @ [CHR 0x0A] @ ''```'')"]
  obtain tr where a: "createUnifiedStream None defaultOptions
        (js (''```js'' @ [CHR 0x0A] @ ''# *a*'' @ [CHR 0x0A] @ ''```'')) = Some (Inr (tokensOf tr))"
    and b: "fenceRegions False (tokensOf tr)" by blast
  from a have "tokensOf tr =
     [\<lparr>type = Syntax, kind = Line, value = js (''```js'' @ [CHR 0x0A])\<rparr>,
      \<lparr>type = Display, kind = Default, value = js ''#''\<rparr>,
      \<lparr>type = Display, kind = Whitespace, value = js '' ''\<rparr>,
      \<lparr>type = Display, kind = Default, value = js ''*''\<rparr>,
      \<lparr>type = Display, kind = Default, value = js ''a''\<rparr>,
      \<lparr>type = Display, kind = Default, value = js ''*''\<rparr>,
      \<lparr>type = Display, kind = Whitespace, value = js [CHR 0x0A]\<rparr>,
      \<lparr>type = Syntax, kind = Line, value = js ''```''\<rparr>]"
    unfolding fence_example by simp
  with b ok show ?thesis by (simp only: simp_thms)
qed

section \<open>Progress and termination\<close>

lemma chain_length:
  assumes ok: "segmenter_ok hs"
  shows "chain hs inc src st tr fin \<Longrightarrow> cursor st + length tr \<le> cursor fin"
proof (induction tr arbitrary: st)
  case Nil then show ?case by simp
next
  case (Cons it tr)
  obtain a tok b where it: "it = (a, tok, b)" by (cases it)
  with Cons.prems have l: "cursor st < length src" and s: "step hs inc src st = Inr (tok, b)"
    and c: "chain hs inc src b tr fin" by simp_all
  from ok l s have "step_ok src st tok b" by (rule step_Inr_ok)
  then have "cursor st < cursor b" by (auto simp: step_ok_def)
  with Cons.IH[OF c] show ?case by simp
qed

text \<open>
  C4. For every input string and every options value, the scan returns after at most as
  many iterations as the input has code units; in every iteration the token's value is
  not empty and the cursor moves forward by its length, never past the end of the input.
\<close>

theorem scan_progress:
  assumes "segmenter_ok hs"
  shows "\<exists>tr. scanTrace hs opts src = Some (Inr tr)
          \<and> createUnifiedStream hs opts src = Some (Inr (tokensOf tr))
          \<and> (\<forall>(st, tok, st') \<in> set tr.
                value tok \<noteq> [] \<and> cursor st < cursor st'
                \<and> cursor st' = cursor st + length (value tok) \<and> cursor st' \<le> length src)
          \<and> length tr \<le> length src"
proof -
  from assms obtain tr fin where t: "scanTrace hs opts src = Some (Inr tr)"
    and c: "chain hs (includeSpaceOf opts) src initialState tr fin"
    and f: "cursor fin = length src" by (rule scanTrace_chain)
  have "\<forall>(st, tok, st') \<in> set tr. value tok \<noteq> [] \<and> cursor st < cursor st'
          \<and> cursor st' = cursor st + length (value tok) \<and> cursor st' \<le> length src"
  proof clarify
    fix st tok st' assume "(st, tok, st') \<in> set tr"
    with c have "cursor st < length src" "step hs (includeSpaceOf opts) src st = Inr (tok, st')"
      using chain_iterations by blast+
    with assms have "step_ok src st tok st'" by (rule step_Inr_ok)
    then show "value tok \<noteq> [] \<and> cursor st < cursor st'
          \<and> cursor st' = cursor st + length (value tok) \<and> cursor st' \<le> length src"
      by (auto simp: step_ok_def)
  qed
  moreover have "length tr \<le> length src"
    using chain_length[OF assms c] f by (simp add: initialState_def)
  ultimately show ?thesis using t stream_of_trace[OF t] by blast
qed

theorem scan_progress_witness:
  "segmenter_ok (Some unitSegments) \<and>
   (\<exists>tr. scanTrace (Some unitSegments) defaultOptions (js ''# Hi *x*'') = Some (Inr tr)
          \<and> createUnifiedStream (Some unitSegments) defaultOptions (js ''# Hi *x*'')
              = Some (Inr (tokensOf tr))
          \<and> (\<forall>(st, tok, st') \<in> set tr.
                value tok \<noteq> [] \<and> cursor st < cursor st'
                \<and> cursor st' = cursor st + length (value tok)
                \<and> cursor st' \<le> length (js ''# Hi *x*''))
          \<and> length tr \<le> length (js ''# Hi *x*''))"
proof -
  have "concat (unitSegments s) = s \<and> [] \<notin> set (unitSegments s)" for s
    by (induction s) (auto simp: unitSegments_def)
  then have ok: "segmenter_ok (Some unitSegments)" by (simp add: segmenter_ok_def)
  from scan_progress[OF ok, of defaultOptions "js ''# Hi *x*''"] ok show ?thesis by blast
qed

section \<open>Whitespace clumping\<close>

lemma htmlStep_char:
  "htmlStep src st = Some r \<Longrightarrow> at src (cursor st) = Some LT \<and> top (stack st) \<noteq> Some CODE"
  unfolding htmlStep_def Let_def by (auto split: if_splits)

lemma markStep_char:
  "markStep src st = Some r \<Longrightarrow>
     at src (cursor st) = Some STAR \<or> at src (cursor st) = Some USCORE
       \<or> at src (cursor st) = Some BTICK"
  unfolding markStep_def Let_def by (auto split: if_splits)

lemma step_whitespace:
  assumes l: "cursor st < length src" and s: "step hs inc src st = Inr (tok, st')"
  shows "isWS (src ! cursor st) \<longleftrightarrow> kind tok = Whitespace"
    and "kind tok = Whitespace \<Longrightarrow> type tok = Display"
    and "kind tok = Whitespace \<Longrightarrow> value tok = takeWhile isWS (drop (cursor st) src)"
proof -
  from l have a: "at src (cursor st) = Some (src ! cursor st)" by (simp add: at_def)
  have d: "isWS (src ! cursor st) \<longleftrightarrow> kind tok = Whitespace" "type tok = Display"
    "kind tok = Whitespace \<Longrightarrow> value tok = takeWhile isWS (drop (cursor st) src)"
    if "displayStep hs src st = Inr (tok, st')"
    using displayStep_InrD(1,5,6)[OF that] a by simp_all
  have "(isWS (src ! cursor st) \<longleftrightarrow> kind tok = Whitespace)
     \<and> (kind tok = Whitespace \<longrightarrow> type tok = Display
            \<and> value tok = takeWhile isWS (drop (cursor st) src))"
    using s
  proof (cases rule: step_cases)
    case line
    then show ?thesis
    proof (cases rule: lineSyntaxStep_cases)
      case (fence m)
      from fence(2) have ok: "match_ok src (cursor st) m" by (rule matchLineSyntax_sound)
      from match_hd(4)[OF ok fence(3)] fence(4) show ?thesis by (simp add: isWS_def)
    next
      case (marker m)
      from marker(2) have ok: "match_ok src (cursor st) m" by (rule matchLineSyntax_sound)
      from lineLead_not_ws[OF match_hd(5)[OF ok marker(3)]] marker(5) show ?thesis by simp
    qed
  next
    case fenced
    from d[OF fenced(3)] show ?thesis by blast
  next
    case html
    from htmlStep_char[OF html(3)] a have "\<not> isWS (src ! cursor st)" by (simp add: isWS_def)
    with htmlStep_ok(3)[OF html(3)] show ?thesis by auto
  next
    case mark
    from markStep_char[OF mark(4)] a have "\<not> isWS (src ! cursor st)"
      by (auto simp: isWS_def)
    with markStep_ok(3)[OF mark(4)] show ?thesis by auto
  next
    case display
    from d[OF display(5)] show ?thesis by blast
  qed
  then show "isWS (src ! cursor st) \<longleftrightarrow> kind tok = Whitespace"
    and "kind tok = Whitespace \<Longrightarrow> type tok = Display"
    and "kind tok = Whitespace \<Longrightarrow> value tok = takeWhile isWS (drop (cursor st) src)"
    by blast+
qed

lemma after_whitespace_run:
  assumes "i + length (takeWhile isWS (drop i src)) < length src"
  shows "\<not> isWS (src ! (i + length (takeWhile isWS (drop i src))))"
proof -
  let ?xs = "drop i src"
  from assms have "length (takeWhile isWS ?xs) < length ?xs" by simp
  then have "\<not> isWS (?xs ! length (takeWhile isWS ?xs))" by (rule nth_length_takeWhile)
  moreover have "?xs ! length (takeWhile isWS ?xs) = src ! (i + length (takeWhile isWS ?xs))"
    using assms by simp
  ultimately show ?thesis by simp
qed

lemma chain_noAdjacentWhitespace:
  assumes ok: "segmenter_ok hs"
  shows "chain hs inc src st tr fin \<Longrightarrow> noAdjacentWhitespace (tokensOf tr)"
proof (induction tr arbitrary: st)
  case Nil then show ?case by (simp add: tokensOf_def)
next
  case (Cons it tr)
  obtain a tok b where it: "it = (a, tok, b)" by (cases it)
  with Cons.prems have l: "cursor st < length src" and s: "step hs inc src st = Inr (tok, b)"
    and c: "chain hs inc src b tr fin" by simp_all
  note ih = Cons.IH[OF c]
  show ?case
  proof (cases tr)
    case Nil then show ?thesis by (simp add: tokensOf_def it)
  next
    case (Cons it2 tr2)
    obtain a2 tok2 b2 where it2: "it2 = (a2, tok2, b2)" by (cases it2)
    with c Cons have l2: "cursor b < length src" and s2: "step hs inc src b = Inr (tok2, b2)"
      by simp_all
    have "\<not> (kind tok = Whitespace \<and> kind tok2 = Whitespace)"
    proof
      assume w: "kind tok = Whitespace \<and> kind tok2 = Whitespace"
      from ok l s have "step_ok src st tok b" by (rule step_Inr_ok)
      then have "cursor b = cursor st + length (value tok)" by (simp add: step_ok_def)
      with step_whitespace(3)[OF l s] w
      have cb: "cursor b = cursor st + length (takeWhile isWS (drop (cursor st) src))" by simp
      from step_whitespace(1)[OF l2 s2] w have "isWS (src ! cursor b)" by simp
      moreover have "\<not> isWS (src ! cursor b)"
        using after_whitespace_run[of "cursor st" src] l2 unfolding cb by simp
      ultimately show False by simp
    qed
    with ih show ?thesis by (simp add: tokensOf_def it Cons it2)
  qed
qed

lemma whitespace_example:
  "createUnifiedStream None defaultOptions (js ''#  x'') =
   Some (Inr [\<lparr>type = Syntax, kind = Line, value = js ''# ''\<rparr>,
              \<lparr>type = Display, kind = Whitespace, value = js '' ''\<rparr>,
              \<lparr>type = Display, kind = Default, value = js ''x''\<rparr>])"
  by (simp add: scan_eval segmenter_eval scanLoop.simps scanWhile.simps)

text \<open>
  C5, in the form the scanner satisfies.  An iteration emits a whitespace token exactly when it starts at a
  whitespace character; the token is a display token and its value is the whole run of
  whitespace from the cursor to the first other character or the end of the input.  So no
  whitespace token is empty and no two whitespace tokens are neighbours.  Whitespace that
  another token consumes (the trailing space of a line marker, the newline of a fence
  line, whitespace inside an HTML tag) belongs to that token.
\<close>

theorem whitespace_clumping:
  assumes "segmenter_ok hs"
  shows "\<exists>tr. scanTrace hs opts src = Some (Inr tr)
          \<and> createUnifiedStream hs opts src = Some (Inr (tokensOf tr))
          \<and> (\<forall>(st, tok, st') \<in> set tr.
                (isWS (src ! cursor st) \<longleftrightarrow> kind tok = Whitespace)
                \<and> (kind tok = Whitespace \<longrightarrow>
                      type tok = Display \<and> value tok \<noteq> []
                      \<and> value tok = takeWhile isWS (drop (cursor st) src)))
          \<and> noAdjacentWhitespace (tokensOf tr)"
proof -
  from assms obtain tr fin where t: "scanTrace hs opts src = Some (Inr tr)"
    and c: "chain hs (includeSpaceOf opts) src initialState tr fin" by (rule scanTrace_chain)
  have "\<forall>(st, tok, st') \<in> set tr.
          (isWS (src ! cursor st) \<longleftrightarrow> kind tok = Whitespace)
          \<and> (kind tok = Whitespace \<longrightarrow> type tok = Display \<and> value tok \<noteq> []
                \<and> value tok = takeWhile isWS (drop (cursor st) src))"
  proof clarify
    fix st tok st' assume "(st, tok, st') \<in> set tr"
    with c have l: "cursor st < length src"
      and s: "step hs (includeSpaceOf opts) src st = Inr (tok, st')"
      using chain_iterations by blast+
    from assms l s have "step_ok src st tok st'" by (rule step_Inr_ok)
    then have "value tok \<noteq> []" by (simp add: step_ok_def)
    with step_whitespace[OF l s]
    show "(isWS (src ! cursor st) \<longleftrightarrow> kind tok = Whitespace)
          \<and> (kind tok = Whitespace \<longrightarrow> type tok = Display \<and> value tok \<noteq> []
                \<and> value tok = takeWhile isWS (drop (cursor st) src))" by blast
  qed
  moreover have "noAdjacentWhitespace (tokensOf tr)"
    using assms c by (rule chain_noAdjacentWhitespace)
  ultimately show ?thesis using t stream_of_trace[OF t] by blast
qed

theorem whitespace_clumping_witness:
  "segmenter_ok None \<and>
   noAdjacentWhitespace
     [\<lparr>type = Syntax, kind = Line, value = js ''# ''\<rparr>,
      \<lparr>type = Display, kind = Whitespace, value = js '' ''\<rparr>,
      \<lparr>type = Display, kind = Default, value = js ''x''\<rparr>]"
proof -
  have ok: "segmenter_ok None" by (simp add: segmenter_ok_def)
  from whitespace_clumping[OF ok, of defaultOptions "js ''#  x''"]
  obtain tr where a: "createUnifiedStream None defaultOptions (js ''#  x'')
       = Some (Inr (tokensOf tr))"
    and b: "noAdjacentWhitespace (tokensOf tr)" by blast
  from a have "tokensOf tr =
     [\<lparr>type = Syntax, kind = Line, value = js ''# ''\<rparr>,
      \<lparr>type = Display, kind = Whitespace, value = js '' ''\<rparr>,
      \<lparr>type = Display, kind = Default, value = js ''x''\<rparr>]"
    unfolding whitespace_example by simp
  with b ok show ?thesis by (simp only: simp_thms)
qed

text \<open>
  A maximal whitespace run is not always one whitespace token: in \<open>#  x\<close> the run of two
  spaces is split between the line token \<open># \<close> and a whitespace token of one space.
\<close>

theorem whitespace_run_split:
  "takeWhile isWS (drop 1 (js ''#  x'')) = js ''  '' \<and>
   createUnifiedStream None defaultOptions (js ''#  x'') =
   Some (Inr [\<lparr>type = Syntax, kind = Line, value = js ''# ''\<rparr>,
              \<lparr>type = Display, kind = Whitespace, value = js '' ''\<rparr>,
              \<lparr>type = Display, kind = Default, value = js ''x''\<rparr>])"
  by (simp add: scan_eval segmenter_eval scanLoop.simps scanWhile.simps)

section \<open>Headings\<close>

lemma heading_unique:
  assumes "heading src i n" "heading src i k"
  shows "n = k"
proof -
  have less: "False" if a: "heading src i n" and b: "heading src i k" and nk: "n < k" for n k
  proof -
    from a have s: "at src (i + n) = Some SP" by (simp add: heading_def)
    from b have t: "take k (drop i src) = replicate k HASH" by (simp add: heading_def startsWith_def)
    from s have l: "i + n < length src" and c: "src ! (i + n) = SP" by (simp_all add: at_Some_iff)
    have "take k (drop i src) ! n = drop i src ! n" using nk by simp
    also have "\<dots> = SP" using l c by simp
    finally have "replicate k HASH ! n = SP" using t by simp
    with nk show False by simp
  qed
  from less[of n k] less[of k n] assms show ?thesis by (cases n k rule: linorder_cases) auto
qed

lemma matchLineSyntax_heading:
  assumes n: "1 \<le> n" "n \<le> 6" and h: "heading src i n"
  shows "matchLineSyntax src i =
      Some \<lparr>mvalue = replicate n HASH @ [SP], len = Suc n, isFence = False\<rparr>"
proof -
  from n have "n = 1 \<or> n = 2 \<or> n = 3 \<or> n = 4 \<or> n = 5 \<or> n = 6" by arith
  moreover have "\<not> heading src i k" if "k \<noteq> n" for k using heading_unique[OF h] that by blast
  ultimately show ?thesis
    using h unfolding matchLineSyntax_def js_hashes
    by (elim disjE) (simp_all add: replicate_eval)
qed

lemma matchLineSyntax_hash:
  assumes m: "matchLineSyntax src i = Some m" and c: "at src i = Some HASH"
  obtains n where "1 \<le> n" "n \<le> 6" "heading src i n"
    "m = \<lparr>mvalue = replicate n HASH @ [SP], len = Suc n, isFence = False\<rparr>"
  using m
proof (cases rule: matchLineSyntax_cases)
  case h6 then show ?thesis using that[of 6] by (simp add: js_hashes)
next
  case h5 then show ?thesis using that[of 5] by (simp add: js_hashes)
next
  case h4 then show ?thesis using that[of 4] by (simp add: js_hashes)
next
  case h3 then show ?thesis using that[of 3] by (simp add: js_hashes)
next
  case h2 then show ?thesis using that[of 2] by (simp add: js_hashes)
next
  case h1 then show ?thesis using that[of 1] by (simp add: js_hashes)
next
  case quote with c show ?thesis by simp
next
  case ulist with c show ?thesis by auto
next
  case olist with c show ?thesis by (simp add: isDigit_def)
next
  case fence
  from m have "match_ok src i m" by (rule matchLineSyntax_sound)
  from match_hd(1,4)[OF this] fence(2) c show ?thesis by (simp add: at_Some_iff)
qed

lemma stripTrailingSpace_snoc: "stripTrailingSpace (v @ [SP]) = v"
  by (simp add: stripTrailingSpace_def)

lemma step_of_lineSyntaxStep:
  "lineSyntaxStep inc src st = Some r \<Longrightarrow> step hs inc src st = Inr r"
  by (simp add: step_def)

lemma step_kind_Line:
  assumes "step hs inc src st = Inr (tok, st')" "kind tok = Line"
  shows "lineSyntaxStep inc src st = Some (tok, st')"
  using assms(1)
proof (cases rule: step_cases)
  case line then show ?thesis .
next
  case fenced with displayStep_InrD(4)[OF fenced(3)] assms(2) show ?thesis by auto
next
  case html with htmlStep_ok(3)[OF html(3)] assms(2) show ?thesis by auto
next
  case mark with markStep_ok(3)[OF mark(4)] assms(2) show ?thesis by auto
next
  case display with displayStep_InrD(4)[OF display(5)] assms(2) show ?thesis by auto
qed

lemma heading_at: "1 \<le> n \<Longrightarrow> heading src i n \<Longrightarrow> at src i = Some HASH"
proof -
  assume n: "1 \<le> n" and h: "heading src i n"
  from heading_take[OF h] have t: "take (Suc n) (drop i src) = replicate n HASH @ [SP]"
    and l: "i + Suc n \<le> length src" by simp_all
  have "take (Suc n) (drop i src) ! 0 = drop i src ! 0" by simp
  also have "\<dots> = src ! i" using l by simp
  finally have "src ! i = (replicate n HASH @ [SP]) ! 0" using t by simp
  also have "\<dots> = HASH" using n by (cases n) simp_all
  finally show ?thesis using l by (simp add: at_Some_iff)
qed

lemma step_heading_emitted:
  assumes sol: "atLineStart src (cursor st)" and nf: "\<not> inFence st"
    and n: "1 \<le> n" "n \<le> 6" and h: "heading src (cursor st) n"
  shows "step hs inc src st =
     Inr (\<lparr>type = Syntax, kind = Line, value = replicate n HASH @ (if inc then [SP] else [])\<rparr>,
          st\<lparr>cursor := cursor st + n + (if inc then 1 else 0)\<rparr>)"
proof -
  have "lineSyntaxStep inc src st =
     Some (\<lparr>type = Syntax, kind = Line, value = replicate n HASH @ (if inc then [SP] else [])\<rparr>,
          st\<lparr>cursor := cursor st + n + (if inc then 1 else 0)\<rparr>)"
    using sol nf matchLineSyntax_heading[OF n h]
    by (simp add: lineSyntaxStep_def Let_def stripTrailingSpace_snoc)
  then show ?thesis by (rule step_of_lineSyntaxStep)
qed

lemma step_heading_only:
  assumes s: "step hs inc src st = Inr (tok, st')"
    and k: "kind tok = Line" and v: "hd (value tok) = HASH"
  obtains n where "atLineStart src (cursor st)" "\<not> inFence st" "1 \<le> n" "n \<le> 6"
    "heading src (cursor st) n"
proof -
  from s k have "lineSyntaxStep inc src st = Some (tok, st')" by (rule step_kind_Line)
  then show ?thesis
  proof (cases rule: lineSyntaxStep_cases)
    case (fence m)
    from fence(2) have ok: "match_ok src (cursor st) m" by (rule matchLineSyntax_sound)
    from match_hd(2,4)[OF ok] fence(3,4) v show ?thesis by simp
  next
    case (marker m)
    from marker(2) have ok: "match_ok src (cursor st) m" by (rule matchLineSyntax_sound)
    have "hd (value tok) = src ! cursor st"
      using marker(5) match_hd(2,3)[OF ok] marker(3) by simp
    with v match_hd(1)[OF ok] have "at src (cursor st) = Some HASH" by (simp add: at_Some_iff)
    with marker(2) obtain n where "1 \<le> n" "n \<le> 6" "heading src (cursor st) n"
      by (rule matchLineSyntax_hash)
    with marker(1,4) that show ?thesis by blast
  qed
qed

lemma heading_example:
  "createUnifiedStream None defaultOptions (js ''#Hello'') =
   Some (Inr [\<lparr>type = Display, kind = Default, value = js ''#''\<rparr>,
              \<lparr>type = Display, kind = Default, value = js ''H''\<rparr>,
              \<lparr>type = Display, kind = Default, value = js ''e''\<rparr>,
              \<lparr>type = Display, kind = Default, value = js ''l''\<rparr>,
              \<lparr>type = Display, kind = Default, value = js ''l''\<rparr>,
              \<lparr>type = Display, kind = Default, value = js ''o''\<rparr>])"
  by (simp add: scan_eval segmenter_eval scanLoop.simps scanWhile.simps)

text \<open>
  C6, in the form the scanner satisfies.  In every iteration of every scan, the token is a \<open>line\<close> token starting
  with \<open>#\<close> exactly when the iteration starts at a start of line, outside a fenced region,
  where 1 to 6 \<open>#\<close> characters are immediately followed by a space; its value is then the
  hashes plus that space when \<open>includeTrailingSpaceInLineSyntax\<close> is true, and the hashes
  alone when it is false.  So hashes not followed by a space never give a \<open>line\<close> token.
\<close>

theorem heading_tokens:
  assumes "segmenter_ok hs"
  shows "\<exists>tr. scanTrace hs opts src = Some (Inr tr)
          \<and> createUnifiedStream hs opts src = Some (Inr (tokensOf tr))
          \<and> (\<forall>(st, tok, st') \<in> set tr.
                ((kind tok = Line \<and> hd (value tok) = HASH) \<longleftrightarrow>
                   (atLineStart src (cursor st) \<and> \<not> inFence st
                    \<and> (\<exists>n. 1 \<le> n \<and> n \<le> 6 \<and> heading src (cursor st) n)))
                \<and> (\<forall>n. atLineStart src (cursor st) \<and> \<not> inFence st
                         \<and> 1 \<le> n \<and> n \<le> 6 \<and> heading src (cursor st) n \<longrightarrow>
                       tok = \<lparr>type = Syntax, kind = Line,
                              value = replicate n HASH @ (if includeSpaceOf opts then [SP] else [])\<rparr>))"
proof -
  from assms obtain tr fin where t: "scanTrace hs opts src = Some (Inr tr)"
    and c: "chain hs (includeSpaceOf opts) src initialState tr fin" by (rule scanTrace_chain)
  let ?inc = "includeSpaceOf opts"
  have "\<forall>(st, tok, st') \<in> set tr.
          ((kind tok = Line \<and> hd (value tok) = HASH) \<longleftrightarrow>
             (atLineStart src (cursor st) \<and> \<not> inFence st
              \<and> (\<exists>n. 1 \<le> n \<and> n \<le> 6 \<and> heading src (cursor st) n)))
          \<and> (\<forall>n. atLineStart src (cursor st) \<and> \<not> inFence st
                   \<and> 1 \<le> n \<and> n \<le> 6 \<and> heading src (cursor st) n \<longrightarrow>
                 tok = \<lparr>type = Syntax, kind = Line,
                        value = replicate n HASH @ (if ?inc then [SP] else [])\<rparr>)"
  proof clarify
    fix st tok st' assume "(st, tok, st') \<in> set tr"
    with c have s: "step hs ?inc src st = Inr (tok, st')" using chain_iterations by blast
    have emitted: "tok = \<lparr>type = Syntax, kind = Line,
                        value = replicate n HASH @ (if ?inc then [SP] else [])\<rparr>"
      if "atLineStart src (cursor st)" "\<not> inFence st" "1 \<le> n" "n \<le> 6"
        "heading src (cursor st) n" for n
      using step_heading_emitted[OF that, of hs ?inc] s by simp
    have "kind tok = Line \<and> hd (value tok) = HASH"
      if "atLineStart src (cursor st)" "\<not> inFence st" "1 \<le> n" "n \<le> 6"
        "heading src (cursor st) n" for n
      using emitted[OF that] that(3) by (cases n) simp_all
    moreover have "atLineStart src (cursor st) \<and> \<not> inFence st
              \<and> (\<exists>n. 1 \<le> n \<and> n \<le> 6 \<and> heading src (cursor st) n)"
      if "kind tok = Line" "hd (value tok) = HASH"
      using step_heading_only[OF s that] by metis
    ultimately show "((kind tok = Line \<and> hd (value tok) = HASH) \<longleftrightarrow>
             (atLineStart src (cursor st) \<and> \<not> inFence st
              \<and> (\<exists>n. 1 \<le> n \<and> n \<le> 6 \<and> heading src (cursor st) n)))
          \<and> (\<forall>n. atLineStart src (cursor st) \<and> \<not> inFence st
                   \<and> 1 \<le> n \<and> n \<le> 6 \<and> heading src (cursor st) n \<longrightarrow>
                 tok = \<lparr>type = Syntax, kind = Line,
                        value = replicate n HASH @ (if ?inc then [SP] else [])\<rparr>)"
      using emitted by blast
  qed
  then show ?thesis using t stream_of_trace[OF t] by blast
qed


theorem heading_tokens_witness:
  "segmenter_ok None \<and>
   (\<exists>tr. scanTrace None defaultOptions (js ''# Hi'') = Some (Inr tr)
          \<and> createUnifiedStream None defaultOptions (js ''# Hi'') = Some (Inr (tokensOf tr))
          \<and> (\<forall>(st, tok, st') \<in> set tr.
                ((kind tok = Line \<and> hd (value tok) = HASH) \<longleftrightarrow>
                   (atLineStart (js ''# Hi'') (cursor st) \<and> \<not> inFence st
                    \<and> (\<exists>n. 1 \<le> n \<and> n \<le> 6 \<and> heading (js ''# Hi'') (cursor st) n)))
                \<and> (\<forall>n. atLineStart (js ''# Hi'') (cursor st) \<and> \<not> inFence st
                         \<and> 1 \<le> n \<and> n \<le> 6 \<and> heading (js ''# Hi'') (cursor st) n \<longrightarrow>
                       tok = \<lparr>type = Syntax, kind = Line,
                              value = replicate n HASH
                                @ (if includeSpaceOf defaultOptions then [SP] else [])\<rparr>)))"
proof -
  have ok: "segmenter_ok None" by (simp add: segmenter_ok_def)
  from heading_tokens[OF ok, of defaultOptions "js ''# Hi''"] ok show ?thesis by blast
qed

text \<open>
  Inside a fenced region a heading marker is no \<open>line\<close> token: in the second line of the
  input below one \<open>#\<close> at the start of the line is immediately followed by a space, and
  the scan emits it as display content.
\<close>

theorem heading_in_fence:
  "createUnifiedStream None defaultOptions (js (''```'' @ [CHR 0x0A] @ ''# Hi'')) =
   Some (Inr [\<lparr>type = Syntax, kind = Line, value = js (''```'' @ [CHR 0x0A])\<rparr>,
              \<lparr>type = Display, kind = Default, value = js ''#''\<rparr>,
              \<lparr>type = Display, kind = Whitespace, value = js '' ''\<rparr>,
              \<lparr>type = Display, kind = Default, value = js ''H''\<rparr>,
              \<lparr>type = Display, kind = Default, value = js ''i''\<rparr>])"
  by (simp add: scan_eval segmenter_eval scanLoop.simps scanWhile.simps)

lemma heading_without_trailing_space:
  "createUnifiedStream None \<lparr>includeTrailingSpaceInLineSyntax = Some False\<rparr> (js ''# Hi'') =
   Some (Inr [\<lparr>type = Syntax, kind = Line, value = js ''#''\<rparr>,
              \<lparr>type = Display, kind = Whitespace, value = js '' ''\<rparr>,
              \<lparr>type = Display, kind = Default, value = js ''H''\<rparr>,
              \<lparr>type = Display, kind = Default, value = js ''i''\<rparr>])"
  by (simp add: scan_eval segmenter_eval scanLoop.simps scanWhile.simps)

section \<open>Iterations at a given character\<close>

lemma lineSyntaxStep_None:
  assumes "at src (cursor st) = Some c" "\<not> lineLead c" "c \<noteq> BTICK"
  shows "lineSyntaxStep inc src st = None"
proof (cases "matchLineSyntax src (cursor st)")
  case None
  then show ?thesis by (simp add: lineSyntaxStep_def Let_def)
next
  case (Some m)
  then have ok: "match_ok src (cursor st) m" by (rule matchLineSyntax_sound)
  from assms(1) have "src ! cursor st = c" by (simp add: at_Some_iff)
  with match_hd(4,5)[OF ok] assms(2,3) show ?thesis by (cases "isFence m") simp_all
qed

lemma step_at_whitespace:
  assumes a: "at src (cursor st) = Some c" and w: "isWS c"
  shows "step hs inc src st =
     Inr (\<lparr>type = Display, kind = Whitespace, value = takeWhile isWS (drop (cursor st) src)\<rparr>,
          st\<lparr>cursor := cursor st + length (takeWhile isWS (drop (cursor st) src))\<rparr>)"
proof -
  from w have n: "\<not> lineLead c" "c \<noteq> BTICK" "c \<noteq> LT" "c \<noteq> STAR" "c \<noteq> USCORE"
    by (auto simp: isWS_def lineLead_def isDigit_def)
  have l: "lineSyntaxStep inc src st = None" using a n(1,2) by (rule lineSyntaxStep_None)
  have h: "htmlStep src st = None" using a n(3) by (simp add: htmlStep_def Let_def)
  have m: "markStep src st = None" using a n(2,4,5) by (simp add: markStep_def Let_def)
  have r: "readWS src (cursor st) = length (takeWhile isWS (drop (cursor st) src))"
    by (simp add: readWS_def scanWhile_takeWhile)
  have d: "displayStep hs src st =
     Inr (\<lparr>type = Display, kind = Whitespace, value = takeWhile isWS (drop (cursor st) src)\<rparr>,
          st\<lparr>cursor := cursor st + length (takeWhile isWS (drop (cursor st) src))\<rparr>)"
    using a w readWS_pos(3)[OF a w] by (simp add: displayStep_def Let_def r)
  show ?thesis using l h m d by (simp add: step_def)
qed

section \<open>HTML tags\<close>

lemma take_through_first:
  assumes "c \<in> set xs"
  shows "take (Suc (length (takeWhile (\<lambda>x. x \<noteq> c) xs))) xs = takeWhile (\<lambda>x. x \<noteq> c) xs @ [c]"
proof -
  let ?n = "length (takeWhile (\<lambda>x. x \<noteq> c) xs)"
  from assms have l: "?n < length xs"
    by (metis (mono_tags, lifting) length_takeWhile_le le_neq_implies_less
        takeWhile_eq_all_conv takeWhile_eq_take take_all order_refl)
  then have "\<not> (xs ! ?n \<noteq> c)" by (rule nth_length_takeWhile)
  then have "xs ! ?n = c" by simp
  moreover have "take (Suc ?n) xs = take ?n xs @ [xs ! ?n]" using l by (rule take_Suc_conv_app_nth)
  moreover have "take ?n xs = takeWhile (\<lambda>x. x \<noteq> c) xs" by (rule takeWhile_eq_take [symmetric])
  ultimately show ?thesis by simp
qed

text \<open>
  C7. Outside fenced code and outside an open code-span, an iteration that starts at \<open><\<close>:
  when a \<open>>\<close> occurs later in the input, it emits the text from the \<open><\<close> through the first
  such \<open>>\<close> as one syntax token, of kind \<open>close\<close> when that text starts with \<open></\<close> and of kind
  \<open>open\<close> otherwise; when none occurs, it emits the grapheme that starts with the \<open><\<close> as an
  ordinary display token.  In both cases it returns a token, never an error.
\<close>

theorem html_tag_step:
  assumes "segmenter_ok hs" and "at src (cursor st) = Some LT"
    and "\<not> inFence st" and "top (stack st) \<noteq> Some CODE"
  shows "if GT \<in> set (drop (cursor st + 1) src)
         then (let tagText = LT # takeWhile (\<lambda>c. c \<noteq> GT) (drop (cursor st + 1) src) @ [GT]
               in step hs inc src st =
                    Inr (\<lparr>type = Syntax,
                          kind = (if startsWith tagText (js ''</'') 0 then Close else Open),
                          value = tagText\<rparr>,
                         st\<lparr>cursor := cursor st + length tagText\<rparr>)
                  \<and> prefix tagText (drop (cursor st) src))
         else (\<exists>g. step hs inc src st =
                      Inr (\<lparr>type = Display, kind = Default, value = g\<rparr>,
                           st\<lparr>cursor := cursor st + length g\<rparr>)
                  \<and> hd g = LT \<and> g \<noteq> [] \<and> prefix g (drop (cursor st) src))"
proof -
  let ?i = "cursor st"
  let ?rest = "drop (?i + 1) src"
  from assms(2) have il: "?i < length src" and ci: "src ! ?i = LT" by (simp_all add: at_Some_iff)
  then have d: "drop ?i src = LT # ?rest" by (simp add: Cons_nth_drop_Suc[symmetric])
  have l: "lineSyntaxStep inc src st = None"
    using assms(2) by (rule lineSyntaxStep_None) (simp_all add: lineLead_def isDigit_def)
  show ?thesis
  proof (cases "indexOf src GT (?i + 1)")
    case (Some k)
    note k = indexOf_Some[OF Some]
    let ?n = "length (takeWhile (\<lambda>c. c \<noteq> GT) ?rest)"
    let ?tag = "LT # takeWhile (\<lambda>c. c \<noteq> GT) ?rest @ [GT]"
    have "?rest ! (k - (?i + 1)) = GT" using k(1,2,3) by simp
    moreover have "k - (?i + 1) < length ?rest" using k(1,2) by simp
    ultimately have mem: "GT \<in> set ?rest" by (metis nth_mem)
    have t: "take (Suc ?n) ?rest = takeWhile (\<lambda>c. c \<noteq> GT) ?rest @ [GT]"
      using mem by (rule take_through_first)
    have e: "k + 1 - ?i = Suc (Suc ?n)" using k(4) by simp
    have sl: "slice src ?i (k + 1) = ?tag" unfolding slice_def e d using t by simp
    have len: "length ?tag = Suc (Suc ?n)" by simp
    have h: "htmlStep src st =
       Some (\<lparr>type = Syntax, kind = (if startsWith ?tag (js ''</'') 0 then Close else Open),
               value = ?tag\<rparr>, st\<lparr>cursor := ?i + length ?tag\<rparr>)"
      using assms(2,4) Some sl k(4) unfolding htmlStep_def Let_def len by simp
    have "step hs inc src st =
       Inr (\<lparr>type = Syntax, kind = (if startsWith ?tag (js ''</'') 0 then Close else Open),
               value = ?tag\<rparr>, st\<lparr>cursor := ?i + length ?tag\<rparr>)"
      using l assms(3) h by (simp add: step_def)
    moreover have "prefix ?tag (drop ?i src)"
      unfolding d using t by (metis Cons_prefix_Cons take_is_prefix)
    ultimately show ?thesis using mem by (simp only: if_True Let_def simp_thms)
  next
    case None
    then have nomem: "GT \<notin> set ?rest" by (rule indexOf_None)
    from None assms(2,4) have h: "htmlStep src st = None" by (simp add: htmlStep_def Let_def)
    from assms(2,4) have m: "markStep src st = None" by (simp add: markStep_def Let_def)
    from il have "drop ?i src \<noteq> []" by simp
    with assms(1) obtain g gs where g: "graphemes hs (drop ?i src) = g # gs" "g \<noteq> []"
      "drop ?i src = g @ concat gs" by (rule graphemes_first)
    have "displayStep hs src st =
       Inr (\<lparr>type = Display, kind = Default, value = g\<rparr>, st\<lparr>cursor := ?i + length g\<rparr>)"
      using assms(2) g(1) by (simp add: displayStep_def Let_def isWS_def)
    then have "step hs inc src st =
       Inr (\<lparr>type = Display, kind = Default, value = g\<rparr>, st\<lparr>cursor := ?i + length g\<rparr>)"
      using l assms(3) h m by (simp add: step_def)
    moreover have "hd g = LT" using g(2,3) d by (cases g) simp_all
    moreover have "prefix g (drop ?i src)" using g(3) by (metis prefixI)
    ultimately show ?thesis using nomem g(2) by (simp only: if_False) blast
  qed
qed


theorem html_tag_step_witness:
  "segmenter_ok None \<and> at (js ''<br/>x'') (cursor initialState) = Some LT
   \<and> \<not> inFence initialState \<and> top (stack initialState) \<noteq> Some CODE
   \<and> step None True (js ''<br/>x'') initialState =
        Inr (\<lparr>type = Syntax, kind = Open, value = js ''<br/>''\<rparr>,
             initialState\<lparr>cursor := 5\<rparr>)"
  using html_tag_step[of None "js ''<br/>x''" initialState True]
  by (simp add: segmenter_ok_def initialState_def at_def js_def top_def startsWith_def Let_def)

lemma html_examples:
  "createUnifiedStream None defaultOptions (js ''</b><br/>'') =
   Some (Inr [\<lparr>type = Syntax, kind = Close, value = js ''</b>''\<rparr>,
              \<lparr>type = Syntax, kind = Open, value = js ''<br/>''\<rparr>])"
  "createUnifiedStream None defaultOptions (js ''a<b'') =
   Some (Inr [\<lparr>type = Display, kind = Default, value = js ''a''\<rparr>,
              \<lparr>type = Display, kind = Default, value = js ''<''\<rparr>,
              \<lparr>type = Display, kind = Default, value = js ''b''\<rparr>])"
  by (simp_all add: scan_eval segmenter_eval scanLoop.simps scanWhile.simps)

section \<open>The trailing space of a line marker\<close>

lemma match_snoc_space:
  assumes ok: "match_ok src i m" and nf: "\<not> isFence m"
  shows "mvalue m = stripTrailingSpace (mvalue m) @ [SP]"
    and "length (stripTrailingSpace (mvalue m)) = len m - 1"
    and "at src (i + (len m - 1)) = Some SP"
proof -
  note v = match_okD(1)[OF ok] and b = match_okD(2)[OF ok] and l = match_okD(6)[OF ok nf]
    and s = match_okD(7)[OF ok nf] and n = match_okD(3)[OF ok]
  from n l have ne: "mvalue m \<noteq> []" by auto
  with s show e: "mvalue m = stripTrailingSpace (mvalue m) @ [SP]"
    by (simp add: stripTrailingSpace_def) (metis append_butlast_last_id)
  show sl: "length (stripTrailingSpace (mvalue m)) = len m - 1"
    using stripTrailingSpace_match[OF ok nf] b by simp
  have "mvalue m ! (len m - 1) = SP" using s ne n by (simp add: last_conv_nth)
  moreover have "mvalue m ! (len m - 1) = src ! (i + (len m - 1))"
    unfolding v using l b by simp
  ultimately show "at src (i + (len m - 1)) = Some SP" using l b by (simp add: at_Some_iff)
qed

text \<open>
  C8. With \<open>includeTrailingSpaceInLineSyntax\<close> false, an iteration that acts on a line-syntax
  match other than a fence emits the marker without its trailing space and moves the
  cursor by that shortened length; the next iteration emits a whitespace token that starts
  with the stripped space.  On a fence match the iteration is the same as with the option
  true.
\<close>

theorem trailing_space_option:
  assumes "includeTrailingSpaceInLineSyntax opts = Some False"
    and "atLineStart src (cursor st)" and "matchLineSyntax src (cursor st) = Some m"
  shows "(\<not> isFence m \<and> \<not> inFence st \<longrightarrow>
            (\<exists>v ws. mvalue m = v @ [SP]
               \<and> step hs (includeSpaceOf opts) src st =
                    Inr (\<lparr>type = Syntax, kind = Line, value = v\<rparr>,
                         st\<lparr>cursor := cursor st + length v\<rparr>)
               \<and> step hs (includeSpaceOf opts) src (st\<lparr>cursor := cursor st + length v\<rparr>) =
                    Inr (\<lparr>type = Display, kind = Whitespace, value = ws\<rparr>,
                         st\<lparr>cursor := cursor st + length v + length ws\<rparr>)
               \<and> hd ws = SP \<and> ws = takeWhile isWS (drop (cursor st + length v) src)))
       \<and> (isFence m \<longrightarrow>
            step hs (includeSpaceOf opts) src st =
              Inr (\<lparr>type = Syntax, kind = Line, value = mvalue m\<rparr>,
                   st\<lparr>cursor := cursor st + len m, inFence := \<not> inFence st\<rparr>)
            \<and> step hs (includeSpaceOf opts) src st = step hs True src st)"
proof (intro conjI impI)
  from assms(1) have inc: "includeSpaceOf opts = False" by (simp add: includeSpaceOf_def)
  from assms(3) have ok: "match_ok src (cursor st) m" by (rule matchLineSyntax_sound)
  { assume a: "\<not> isFence m \<and> \<not> inFence st"
    then have nf: "\<not> isFence m" and nin: "\<not> inFence st" by simp_all
    let ?v = "stripTrailingSpace (mvalue m)"
    let ?st = "st\<lparr>cursor := cursor st + length ?v\<rparr>"
    let ?ws = "takeWhile isWS (drop (cursor st + length ?v) src)"
    note sp = match_snoc_space[OF ok nf]
    have "lineSyntaxStep False src st =
        Some (\<lparr>type = Syntax, kind = Line, value = ?v\<rparr>, ?st)"
      using assms(2,3) nf nin by (simp add: lineSyntaxStep_def Let_def)
    then have s1: "step hs False src st = Inr (\<lparr>type = Syntax, kind = Line, value = ?v\<rparr>, ?st)"
      by (rule step_of_lineSyntaxStep)
    have at': "at src (cursor ?st) = Some SP" using sp(2,3) by simp
    have "isWS SP" by (simp add: isWS_def)
    from step_at_whitespace[OF at' this, of hs False]
    have s2: "step hs False src ?st =
        Inr (\<lparr>type = Display, kind = Whitespace, value = ?ws\<rparr>,
             st\<lparr>cursor := cursor st + length ?v + length ?ws\<rparr>)" by simp
    from at' have "cursor st + length ?v < length src" "src ! (cursor st + length ?v) = SP"
      by (simp_all add: at_Some_iff)
    then have "drop (cursor st + length ?v) src = SP # drop (Suc (cursor st + length ?v)) src"
      by (metis Cons_nth_drop_Suc)
    then have "hd ?ws = SP" by (simp add: isWS_def)
    with sp(1) s1 s2 inc
    show "\<exists>v ws. mvalue m = v @ [SP]
               \<and> step hs (includeSpaceOf opts) src st =
                    Inr (\<lparr>type = Syntax, kind = Line, value = v\<rparr>,
                         st\<lparr>cursor := cursor st + length v\<rparr>)
               \<and> step hs (includeSpaceOf opts) src (st\<lparr>cursor := cursor st + length v\<rparr>) =
                    Inr (\<lparr>type = Display, kind = Whitespace, value = ws\<rparr>,
                         st\<lparr>cursor := cursor st + length v + length ws\<rparr>)
               \<and> hd ws = SP \<and> ws = takeWhile isWS (drop (cursor st + length v) src)"
      by (intro exI[of _ ?v] exI[of _ ?ws]) simp }
  { assume f: "isFence m"
    have "lineSyntaxStep i src st =
        Some (\<lparr>type = Syntax, kind = Line, value = mvalue m\<rparr>,
              st\<lparr>cursor := cursor st + len m, inFence := \<not> inFence st\<rparr>)" for i
      using assms(2,3) f by (simp add: lineSyntaxStep_def Let_def)
    then have s: "step hs i src st =
        Inr (\<lparr>type = Syntax, kind = Line, value = mvalue m\<rparr>,
              st\<lparr>cursor := cursor st + len m, inFence := \<not> inFence st\<rparr>)" for i
      by (rule step_of_lineSyntaxStep)
    from s show "step hs (includeSpaceOf opts) src st =
              Inr (\<lparr>type = Syntax, kind = Line, value = mvalue m\<rparr>,
                   st\<lparr>cursor := cursor st + len m, inFence := \<not> inFence st\<rparr>)" .
    from s show "step hs (includeSpaceOf opts) src st = step hs True src st" by simp }
qed


theorem trailing_space_option_witness:
  "includeTrailingSpaceInLineSyntax \<lparr>includeTrailingSpaceInLineSyntax = Some False\<rparr> = Some False
   \<and> atLineStart (js ''# Hi'') (cursor initialState)
   \<and> matchLineSyntax (js ''# Hi'') (cursor initialState)
        = Some \<lparr>mvalue = js ''# '', len = 2, isFence = False\<rparr>
   \<and> (\<exists>ws. step None False (js ''# Hi'') initialState =
               Inr (\<lparr>type = Syntax, kind = Line, value = js ''#''\<rparr>, initialState\<lparr>cursor := 1\<rparr>)
          \<and> step None False (js ''# Hi'') (initialState\<lparr>cursor := 1\<rparr>) =
               Inr (\<lparr>type = Display, kind = Whitespace, value = ws\<rparr>,
                    initialState\<lparr>cursor := 1 + length ws\<rparr>)
          \<and> hd ws = SP)"
proof -
  let ?opts = "\<lparr>includeTrailingSpaceInLineSyntax = Some False\<rparr>"
  let ?m = "\<lparr>mvalue = js ''# '', len = 2, isFence = False\<rparr>"
  have a: "includeTrailingSpaceInLineSyntax ?opts = Some False" by simp
  have b: "atLineStart (js ''# Hi'') (cursor initialState)"
    by (simp add: atLineStart_def initialState_def)
  have c: "matchLineSyntax (js ''# Hi'') (cursor initialState) = Some ?m"
    by (simp add: matchLineSyntax_def heading_def startsWith_def at_def initialState_def js_def
        replicate_eval)
  have i: "includeSpaceOf ?opts = False" by (simp add: includeSpaceOf_def)
  have n: "\<not> isFence ?m \<and> \<not> inFence initialState" by (simp add: initialState_def)
  from trailing_space_option[OF a b c, of None] n
  obtain v ws where v: "mvalue ?m = v @ [SP]"
    and s1: "step None (includeSpaceOf ?opts) (js ''# Hi'') initialState =
         Inr (\<lparr>type = Syntax, kind = Line, value = v\<rparr>,
              initialState\<lparr>cursor := cursor initialState + length v\<rparr>)"
    and s2: "step None (includeSpaceOf ?opts) (js ''# Hi'')
           (initialState\<lparr>cursor := cursor initialState + length v\<rparr>) =
         Inr (\<lparr>type = Display, kind = Whitespace, value = ws\<rparr>,
              initialState\<lparr>cursor := cursor initialState + length v + length ws\<rparr>)"
    and h: "hd ws = SP" by blast
  from v have v': "v = js ''#''" by (simp add: js_def)
  have z: "cursor initialState = 0" by (simp add: initialState_def)
  have l: "length (js ''#'') = 1" by (simp add: js_def)
  from s1 have s1': "step None False (js ''# Hi'') initialState =
         Inr (\<lparr>type = Syntax, kind = Line, value = js ''#''\<rparr>, initialState\<lparr>cursor := 1\<rparr>)"
    unfolding v' i z l by simp
  from s2 have s2': "step None False (js ''# Hi'') (initialState\<lparr>cursor := 1\<rparr>) =
         Inr (\<lparr>type = Display, kind = Whitespace, value = ws\<rparr>,
              initialState\<lparr>cursor := 1 + length ws\<rparr>)"
    unfolding v' i z l by simp
  from a b c s1' s2' h show ?thesis by blast
qed

section \<open>Inside an inline code span\<close>

lemma step_token_stack:
  assumes "at src (cursor st) \<noteq> Some LT" "at src (cursor st) \<noteq> Some STAR"
    "at src (cursor st) \<noteq> Some USCORE" "at src (cursor st) \<noteq> Some BTICK"
  shows "map_sum id fst (step hs inc src (st\<lparr>stack := stk\<rparr>)) = map_sum id fst (step hs inc src st)"
proof -
  have h: "htmlStep src s = None" if "cursor s = cursor st" for s
    using assms(1) that by (simp add: htmlStep_def Let_def)
  have m: "markStep src s = None" if "cursor s = cursor st" for s
    using assms(2,3,4) that by (simp add: markStep_def Let_def)
  have l: "map_option fst (lineSyntaxStep inc src (st\<lparr>stack := stk\<rparr>))
         = map_option fst (lineSyntaxStep inc src st)"
    by (simp add: lineSyntaxStep_def Let_def split: option.splits)
  have d: "map_sum id fst (displayStep hs src (st\<lparr>stack := stk\<rparr>))
         = map_sum id fst (displayStep hs src st)"
    by (simp add: displayStep_def Let_def split: option.splits list.splits)
  show ?thesis
    using l d h[of st] h[of "st\<lparr>stack := stk\<rparr>"] m[of st] m[of "st\<lparr>stack := stk\<rparr>"]
    by (auto simp: step_def split: option.splits)
qed

lemma lineSyntaxStep_None_iff:
  assumes "\<not> inFence st"
  shows "lineSyntaxStep inc src st = None
     \<longleftrightarrow> \<not> atLineStart src (cursor st) \<or> matchLineSyntax src (cursor st) = None"
  using assms by (auto simp: lineSyntaxStep_def Let_def split: option.splits)

text \<open>
  C10, in the form the scanner satisfies.  With the code-span mark on top of the mark stack: at a start of line,
  a fence match is emitted as a \<open>line\<close> token and flips the fence flag; any other
  line-syntax match is emitted as a \<open>line\<close> token when the fence flag is off.  Where no line
  syntax is acted on and the fence flag is off, a backtick closes the code span and every
  other character, \<open><\<close>, \<open>*\<close> and \<open>_\<close> among them, goes to the display section.  At a
  character other than \<open><\<close>, \<open>*\<close>, \<open>_\<close> and the backtick, the token does not depend on the
  mark stack.
\<close>

theorem code_span_line_start:
  assumes "top (stack st) = Some CODE"
  shows "(atLineStart src (cursor st) \<and> matchLineSyntax src (cursor st) = Some m \<and> isFence m
            \<longrightarrow> step hs inc src st =
                  Inr (\<lparr>type = Syntax, kind = Line, value = mvalue m\<rparr>,
                       st\<lparr>cursor := cursor st + len m, inFence := \<not> inFence st\<rparr>))
       \<and> (atLineStart src (cursor st) \<and> matchLineSyntax src (cursor st) = Some m
            \<and> \<not> isFence m \<and> \<not> inFence st
            \<longrightarrow> step hs inc src st =
                  Inr (\<lparr>type = Syntax, kind = Line,
                        value = (if inc then mvalue m else stripTrailingSpace (mvalue m))\<rparr>,
                       st\<lparr>cursor := cursor st
                           + length (if inc then mvalue m else stripTrailingSpace (mvalue m))\<rparr>))
       \<and> ((\<not> atLineStart src (cursor st) \<or> matchLineSyntax src (cursor st) = None)
            \<and> \<not> inFence st
            \<longrightarrow> (if at src (cursor st) = Some BTICK
                 then step hs inc src st =
                        Inr (\<lparr>type = Syntax, kind = Close, value = js ''`''\<rparr>,
                             st\<lparr>stack := butlast (stack st), cursor := cursor st + 1\<rparr>)
                 else step hs inc src st = displayStep hs src st))
       \<and> (at src (cursor st) \<notin> {Some LT, Some STAR, Some USCORE, Some BTICK}
            \<longrightarrow> (\<forall>stk. map_sum id fst (step hs inc src (st\<lparr>stack := stk\<rparr>))
                        = map_sum id fst (step hs inc src st)))"
proof (intro conjI impI allI)
  assume "atLineStart src (cursor st) \<and> matchLineSyntax src (cursor st) = Some m \<and> isFence m"
  then have "lineSyntaxStep inc src st =
      Some (\<lparr>type = Syntax, kind = Line, value = mvalue m\<rparr>,
            st\<lparr>cursor := cursor st + len m, inFence := \<not> inFence st\<rparr>)"
    by (simp add: lineSyntaxStep_def Let_def)
  then show "step hs inc src st =
      Inr (\<lparr>type = Syntax, kind = Line, value = mvalue m\<rparr>,
           st\<lparr>cursor := cursor st + len m, inFence := \<not> inFence st\<rparr>)"
    by (rule step_of_lineSyntaxStep)
next
  assume "atLineStart src (cursor st) \<and> matchLineSyntax src (cursor st) = Some m
            \<and> \<not> isFence m \<and> \<not> inFence st"
  then have "lineSyntaxStep inc src st =
      Some (\<lparr>type = Syntax, kind = Line,
              value = (if inc then mvalue m else stripTrailingSpace (mvalue m))\<rparr>,
            st\<lparr>cursor := cursor st
                + length (if inc then mvalue m else stripTrailingSpace (mvalue m))\<rparr>)"
    by (simp add: lineSyntaxStep_def Let_def)
  then show "step hs inc src st =
      Inr (\<lparr>type = Syntax, kind = Line,
              value = (if inc then mvalue m else stripTrailingSpace (mvalue m))\<rparr>,
            st\<lparr>cursor := cursor st
                + length (if inc then mvalue m else stripTrailingSpace (mvalue m))\<rparr>)"
    by (rule step_of_lineSyntaxStep)
next
  assume a: "(\<not> atLineStart src (cursor st) \<or> matchLineSyntax src (cursor st) = None)
               \<and> \<not> inFence st"
  then have l: "lineSyntaxStep inc src st = None" using lineSyntaxStep_None_iff by blast
  have h: "htmlStep src st = None" using assms by (simp add: htmlStep_def Let_def)
  show "if at src (cursor st) = Some BTICK
        then step hs inc src st =
               Inr (\<lparr>type = Syntax, kind = Close, value = js ''`''\<rparr>,
                    st\<lparr>stack := butlast (stack st), cursor := cursor st + 1\<rparr>)
        else step hs inc src st = displayStep hs src st"
    using l h a assms by (simp add: step_def markStep_def Let_def)
next
  fix stk
  assume "at src (cursor st) \<notin> {Some LT, Some STAR, Some USCORE, Some BTICK}"
  then show "map_sum id fst (step hs inc src (st\<lparr>stack := stk\<rparr>))
                 = map_sum id fst (step hs inc src st)"
    by (intro step_token_stack) simp_all
qed

text \<open>
  With the fence flag set, a marker other than a fence is not emitted as a \<open>line\<close> token,
  code span or not: in the input below the backtick of the first line opens a code span,
  the second line opens a fence, and the heading marker at the start of the third line,
  reached with the code-span mark on top of the stack, is emitted as display content.
\<close>

theorem code_span_heading_in_fence:
  "scanTrace None defaultOptions (js (''`'' @ [CHR 0x0A] @ ''```'' @ [CHR 0x0A] @ ''# x'')) =
   Some (Inr
     [(\<lparr>cursor = 0, stack = [], inFence = False\<rparr>,
       \<lparr>type = Syntax, kind = Open, value = js ''`''\<rparr>,
       \<lparr>cursor = 1, stack = [CODE], inFence = False\<rparr>),
      (\<lparr>cursor = 1, stack = [CODE], inFence = False\<rparr>,
       \<lparr>type = Display, kind = Whitespace, value = js [CHR 0x0A]\<rparr>,
       \<lparr>cursor = 2, stack = [CODE], inFence = False\<rparr>),
      (\<lparr>cursor = 2, stack = [CODE], inFence = False\<rparr>,
       \<lparr>type = Syntax, kind = Line, value = js (''```'' @ [CHR 0x0A])\<rparr>,
       \<lparr>cursor = 6, stack = [CODE], inFence = True\<rparr>),
      (\<lparr>cursor = 6, stack = [CODE], inFence = True\<rparr>,
       \<lparr>type = Display, kind = Default, value = js ''#''\<rparr>,
       \<lparr>cursor = 7, stack = [CODE], inFence = True\<rparr>),
      (\<lparr>cursor = 7, stack = [CODE], inFence = True\<rparr>,
       \<lparr>type = Display, kind = Whitespace, value = js '' ''\<rparr>,
       \<lparr>cursor = 8, stack = [CODE], inFence = True\<rparr>),
      (\<lparr>cursor = 8, stack = [CODE], inFence = True\<rparr>,
       \<lparr>type = Display, kind = Default, value = js ''x''\<rparr>,
       \<lparr>cursor = 9, stack = [CODE], inFence = True\<rparr>)])
   \<and> atLineStart (js (''`'' @ [CHR 0x0A] @ ''```'' @ [CHR 0x0A] @ ''# x'')) 6
   \<and> matchLineSyntax (js (''`'' @ [CHR 0x0A] @ ''```'' @ [CHR 0x0A] @ ''# x'')) 6
       = Some \<lparr>mvalue = js ''# '', len = 2, isFence = False\<rparr>"
  by (simp add: scan_eval segmenter_eval scanLoop.simps scanWhile.simps)

lemma code_span_examples:
  "createUnifiedStream None defaultOptions (js (''`a'' @ [CHR 0x0A] @ ''# b'')) =
   Some (Inr [\<lparr>type = Syntax, kind = Open, value = js ''`''\<rparr>,
              \<lparr>type = Display, kind = Default, value = js ''a''\<rparr>,
              \<lparr>type = Display, kind = Whitespace, value = js [CHR 0x0A]\<rparr>,
              \<lparr>type = Syntax, kind = Line, value = js ''# ''\<rparr>,
              \<lparr>type = Display, kind = Default, value = js ''b''\<rparr>])"
  "createUnifiedStream None defaultOptions (js ''`<i>*_`'') =
   Some (Inr [\<lparr>type = Syntax, kind = Open, value = js ''`''\<rparr>,
              \<lparr>type = Display, kind = Default, value = js ''<''\<rparr>,
              \<lparr>type = Display, kind = Default, value = js ''i''\<rparr>,
              \<lparr>type = Display, kind = Default, value = js ''>''\<rparr>,
              \<lparr>type = Display, kind = Default, value = js ''*''\<rparr>,
              \<lparr>type = Display, kind = Default, value = js ''_''\<rparr>,
              \<lparr>type = Syntax, kind = Close, value = js ''`''\<rparr>])"
  by (simp_all add: scan_eval segmenter_eval scanLoop.simps scanWhile.simps)

theorem code_span_line_start_witness:
  "top (stack \<lparr>cursor = 3, stack = [CODE], inFence = False\<rparr>) = Some CODE
   \<and> atLineStart (js (''`a'' @ [CHR 0x0A] @ ''# b'')) 3
   \<and> matchLineSyntax (js (''`a'' @ [CHR 0x0A] @ ''# b'')) 3
        = Some \<lparr>mvalue = js ''# '', len = 2, isFence = False\<rparr>
   \<and> step None True (js (''`a'' @ [CHR 0x0A] @ ''# b''))
         \<lparr>cursor = 3, stack = [CODE], inFence = False\<rparr> =
       Inr (\<lparr>type = Syntax, kind = Line, value = js ''# ''\<rparr>,
            \<lparr>cursor = 5, stack = [CODE], inFence = False\<rparr>)"
proof -
  let ?src = "js (''`a'' @ [CHR 0x0A] @ ''# b'')"
  let ?st = "\<lparr>cursor = 3, stack = [CODE], inFence = False\<rparr>"
  let ?m = "\<lparr>mvalue = js ''# '', len = 2, isFence = False\<rparr>"
  have a: "top (stack ?st) = Some CODE" by (simp add: top_def)
  have b: "atLineStart ?src 3" by (simp add: atLineStart_def at_def js_def)
  have c: "matchLineSyntax ?src 3 = Some ?m"
    by (simp add: matchLineSyntax_def heading_def startsWith_def at_def js_def replicate_eval)
  have l: "length (js ''# '') = 2" by (simp add: js_def)
  from code_span_line_start[OF a, of ?src ?m None True] b c
  have "step None True ?src ?st =
       Inr (\<lparr>type = Syntax, kind = Line, value = js ''# ''\<rparr>,
            \<lparr>cursor = 5, stack = [CODE], inFence = False\<rparr>)"
    by (simp add: l)
  with a b c show ?thesis by blast
qed

end
